theory Spec2Isabelle
  imports Main "HOL-Library.Char_ord" "HOL-Library.List_Lexorder" "HOL-Library.Multiset"
begin

section \<open>Characters and the C library predicates used by curate.cpp\<close>

text \<open>
  Strings are byte strings (\<open>std::string\<close>); a \<open>char\<close> is read through
  \<open>unsigned char\<close> wherever the source classifies or compares it, which is the order
  \<open>HOL-Library.Char_ord\<close> puts on \<^typ>\<open>char\<close>.  The program never calls
  \<open>setlocale\<close>, so the classification functions are those of the "C" locale.
\<close>

abbreviation TAB :: char where "TAB \<equiv> CHR 0x09"
abbreviation NL :: char where "NL \<equiv> CHR 0x0A"

definition isspace :: "char \<Rightarrow> bool" where
  "isspace c \<longleftrightarrow> c = CHR '' '' \<or> c = CHR 0x09 \<or> c = CHR 0x0A \<or> c = CHR 0x0B
       \<or> c = CHR 0x0C \<or> c = CHR 0x0D"

definition isdigit :: "char \<Rightarrow> bool" where
  "isdigit c \<longleftrightarrow> CHR ''0'' \<le> c \<and> c \<le> CHR ''9''"

definition isupper :: "char \<Rightarrow> bool" where
  "isupper c \<longleftrightarrow> CHR ''A'' \<le> c \<and> c \<le> CHR ''Z''"

definition islower :: "char \<Rightarrow> bool" where
  "islower c \<longleftrightarrow> CHR ''a'' \<le> c \<and> c \<le> CHR ''z''"

definition isalpha :: "char \<Rightarrow> bool" where
  "isalpha c \<longleftrightarrow> isupper c \<or> islower c"

definition toupper :: "char \<Rightarrow> char" where
  "toupper c = (if islower c then char_of (of_char c - (32::nat)) else c)"

definition tolower :: "char \<Rightarrow> char" where
  "tolower c = (if isupper c then char_of (of_char c + (32::nat)) else c)"

text \<open>\<open>trim\<close>: advance \<open>a\<close> over leading white space, then move \<open>b\<close> back over
  trailing white space without crossing \<open>a\<close>, and return the characters in between.\<close>

definition trim :: "string \<Rightarrow> string" where
  "trim s = rev (dropWhile isspace (rev (dropWhile isspace s)))"

section \<open>Date and ISO week engine\<close>

text \<open>
  \<open>sys_days\<close> is a count of days since 1970-01-01, modelled as \<^typ>\<open>int\<close>.  The two
  conversions of \<open>std::chrono\<close> between a day count and a proleptic Gregorian
  year/month/day are library code; they are given here by the era-based algorithms the
  C++ standard's calendar is defined by (years are counted from March, 400-year eras of
  146097 days).  All calendar dates of the \<open>year\<close> type's range stay far inside 32 bits, so
  no wrap-around is written out.
\<close>

definition yoe_of_doe :: "int \<Rightarrow> int" where
  "yoe_of_doe doe = (doe - doe div 1460 + doe div 36524 - doe div 146096) div 365"

definition days_before_yoe :: "int \<Rightarrow> int" where
  "days_before_yoe yoe = 365 * yoe + yoe div 4 - yoe div 100"

text \<open>\<open>year_month_day(sys_days)\<close>: the civil date of a day count.\<close>

definition civil_from_days :: "int \<Rightarrow> int \<times> int \<times> int" where
  "civil_from_days z0 =
     (let z = z0 + 719468;
          era = z div 146097;
          doe = z - era * 146097;
          yoe = yoe_of_doe doe;
          y = yoe + era * 400;
          doy = doe - days_before_yoe yoe;
          mp = (5 * doy + 2) div 153;
          d = doy - (153 * mp + 2) div 5 + 1;
          m = (if mp < 10 then mp + 3 else mp - 9)
      in (if m \<le> 2 then y + 1 else y, m, d))"

text \<open>\<open>sys_days{year/month/day}\<close>: the day count of a civil date.  It is linear in the
  day, so a day past the end of the month lands in the following month, as the standard
  prescribes for a \<open>year_month_day\<close> that is not \<open>ok()\<close>.\<close>

definition days_from_civil :: "int \<Rightarrow> int \<Rightarrow> int \<Rightarrow> int" where
  "days_from_civil y0 m d =
     (let y = (if m \<le> 2 then y0 - 1 else y0);
          era = y div 400;
          yoe = y - era * 400;
          doy = (153 * (if m > 2 then m - 3 else m + 9) + 2) div 5 + d - 1;
          doe = days_before_yoe yoe + doy
      in era * 146097 + doe - 719468)"

text \<open>\<open>weekday{sys_days}.c_encoding()\<close>: Sunday is 0; 1970-01-01 was a Thursday.\<close>

definition weekday_c_encoding :: "int \<Rightarrow> int" where
  "weekday_c_encoding z = (z + 4) mod 7"

text \<open>Integer division of C++ truncates towards zero.\<close>

definition cpp_div :: "int \<Rightarrow> int \<Rightarrow> int" where
  "cpp_div a b = (if (a < 0) = (b < 0) then \<bar>a\<bar> div \<bar>b\<bar> else - (\<bar>a\<bar> div \<bar>b\<bar>))"

subsection \<open>Properties of the decimal text\<close>

definition digit_char :: "nat \<Rightarrow> char" where
  "digit_char n = char_of (48 + n)"

definition digit_val :: "char \<Rightarrow> int" where
  "digit_val c = int (of_char c) - 48"

fun show_nat :: "nat \<Rightarrow> string" where
  "show_nat n = (if n < 10 then [digit_char n] else show_nat (n div 10) @ [digit_char (n mod 10)])"

declare show_nat.simps [simp del]

text \<open>\<open>oss << int(...)\<close>: decimal digits, a minus sign for a negative value, no padding.\<close>

definition show_int :: "int \<Rightarrow> string" where
  "show_int i = (if i < 0 then CHR ''-'' # show_nat (nat (- i)) else show_nat (nat i))"

text \<open>\<open>oss << setw(2) << setfill('0') << unsigned(...)\<close>: padded on the left to width 2.\<close>

definition pad2 :: "nat \<Rightarrow> string" where
  "pad2 n = (let s = show_nat n in replicate (2 - length s) (CHR ''0'') @ s)"

text \<open>\<open>std::stoi\<close> on a capture of \<open>\\d\<close> characters (at most four of them here).\<close>

definition stoi :: "string \<Rightarrow> int" where
  "stoi s = foldl (\<lambda>a c. 10 * a + digit_val c) 0 s"

subsection \<open>parseISODate, fmtDate\<close>

text \<open>\<open>std::regex_match(s, m, "^(\\d{4})-(\\d{2})-(\\d{2})$")\<close>: the whole subject has to
  match, so it has exactly ten characters; the result is the three captures.\<close>

definition regex_match_date :: "string \<Rightarrow> (string \<times> string \<times> string) option" where
  "regex_match_date s =
     (if length s = 10 \<and> list_all isdigit (take 4 s) \<and> s ! 4 = CHR ''-''
         \<and> list_all isdigit (take 2 (drop 5 s)) \<and> s ! 7 = CHR ''-''
         \<and> list_all isdigit (drop 8 s)
      then Some (take 4 s, take 2 (drop 5 s), drop 8 s) else None)"

definition parseISODate :: "string \<Rightarrow> int option" where
  "parseISODate s =
     (case regex_match_date s of
        None \<Rightarrow> None
      | Some (m1, m2, m3) \<Rightarrow>
          (let y = stoi m1; mo = stoi m2; d = stoi m3 in
           if mo < 1 \<or> mo > 12 \<or> d < 1 \<or> d > 31 then None
           else (let z = days_from_civil y mo d in
                 if civil_from_days z \<noteq> (y, mo, d) then None else Some z)))"

definition fmtDate :: "int \<Rightarrow> string" where
  "fmtDate z =
     (case civil_from_days z of
        (y, m, d) \<Rightarrow> show_int y @ ''-'' @ pad2 (nat m) @ ''-'' @ pad2 (nat d))"

text \<open>\<open>todayISO\<close> formats the current day, an input from the clock, in the same way.\<close>

definition todayISO :: "int \<Rightarrow> string" where
  "todayISO now =
     (case civil_from_days now of
        (y, m, d) \<Rightarrow> show_int y @ ''-'' @ pad2 (nat m) @ ''-'' @ pad2 (nat d))"

subsection \<open>ISO weeks\<close>

record ISOWeek =
  year :: int
  week :: int
  monday :: int
  sunday :: int

definition days_since_monday :: "int \<Rightarrow> int" where
  "days_since_monday z = (if weekday_c_encoding z = 0 then 6 else weekday_c_encoding z - 1)"

definition isoWeekFromDate :: "int \<Rightarrow> ISOWeek" where
  "isoWeekFromDate z =
     (let monday = z - days_since_monday z;
          thursday = monday + 3;
          iso_year = fst (civil_from_days thursday);
          jan4 = days_from_civil iso_year 1 4;
          week1_monday = jan4 - days_since_monday jan4;
          week_num = 1 + cpp_div (monday - week1_monday) 7
      in \<lparr>year = iso_year, week = week_num, monday = monday, sunday = monday + 6\<rparr>)"

definition weekBounds :: "int \<Rightarrow> int \<Rightarrow> ISOWeek" where
  "weekBounds y w =
     (let jan4 = days_from_civil y 1 4;
          week1_monday = jan4 - days_since_monday jan4;
          monday = week1_monday + 7 * (w - 1)
      in \<lparr>year = y, week = w, monday = monday, sunday = monday + 6\<rparr>)"

section \<open>Rule-based classifier\<close>

text \<open>
  A rule holds a compiled \<open>std::regex\<close> and a label.  The compiled object is used in one
  way only, as the second argument of \<open>std::regex_search(url, re)\<close>; it is represented by
  the predicate on subject strings which that search decides.
\<close>

record Rule =
  re :: "string \<Rightarrow> bool"
  kind :: string

text \<open>\<open>detectKind\<close>: the rules are loaded once per process (a function-local static);
  they are a parameter here.  The loop returns at the first rule whose search succeeds.\<close>

fun detectKind :: "Rule list \<Rightarrow> string \<Rightarrow> string" where
  "detectKind [] url = ''article''"
| "detectKind (r # rs) url = (if re r url then Rule.kind r else detectKind rs url)"

text \<open>
  Two one-character patterns as \<open>loadRules\<close> compiles them (ECMAScript grammar with the
  \<open>icase\<close> flag): \<open>.\<close> matches any character but a line terminator, an ordinary
  character matches itself in either case; \<open>regex_search\<close> looks for a match at any
  position of the subject.
\<close>

definition regex_search_dot :: "string \<Rightarrow> bool" where
  "regex_search_dot s = list_ex (\<lambda>c. c \<noteq> CHR 0x0A \<and> c \<noteq> CHR 0x0D) s"

definition regex_search_char :: "char \<Rightarrow> string \<Rightarrow> bool" where
  "regex_search_char p s = list_ex (\<lambda>c. tolower c = tolower p) s"

section \<open>Command-line arguments\<close>

text \<open>The fields of \<open>Args\<close> that the \<open>add\<close> command reads.  (\<open>Rec\<close> is declared after
  it, so the plain name \<open>url\<close> is the field of \<open>Rec\<close>.)\<close>

record Args =
  url :: string
  addTags :: "string list"
  addTitle :: string
  addDateISO :: "string option"

section \<open>Record store\<close>

record Rec =
  date :: int
  kind :: string
  url :: string
  title :: string
  tags :: string

text \<open>\<open>splitTabs\<close>: \<open>cur\<close> collects characters; a tab pushes it to the output and clears
  it; the last \<open>cur\<close> is pushed after the loop, so the result is never empty.\<close>

fun splitTabs_from :: "string \<Rightarrow> string \<Rightarrow> string list" where
  "splitTabs_from cur [] = [cur]"
| "splitTabs_from cur (c # cs) =
     (if c = TAB then cur # splitTabs_from [] cs else splitTabs_from (cur @ [c]) cs)"

definition splitTabs :: "string \<Rightarrow> string list" where
  "splitTabs line = splitTabs_from [] line"

fun joinTabs :: "string list \<Rightarrow> string" where
  "joinTabs [] = []"
| "joinTabs [c] = c"
| "joinTabs (c # cs) = c @ TAB # joinTabs cs"

text \<open>
  The lines \<open>while(getline(in, line))\<close> delivers for a file content: a line ends at a
  newline, which is dropped; characters after the last newline form a final line; reaching
  the end of the file with nothing extracted ends the loop.
\<close>

fun getlines_from :: "string \<Rightarrow> string \<Rightarrow> string list" where
  "getlines_from cur [] = (if cur = [] then [] else [cur])"
| "getlines_from cur (c # cs) =
     (if c = NL then cur # getlines_from [] cs else getlines_from (cur @ [c]) cs)"

definition getlines :: "string \<Rightarrow> string list" where
  "getlines content = getlines_from [] content"

text \<open>The inbox file: \<open>None\<close> when \<open>inbox.tsv\<close> does not exist, else its content.\<close>

type_synonym inbox_file = "string option"

text \<open>Column \<open>i\<close> of a split line, or the default when the line has fewer columns
  (\<open>cols.size() > i ? cols[i] : dflt\<close>).\<close>

definition col :: "string list \<Rightarrow> nat \<Rightarrow> string \<Rightarrow> string" where
  "col cols i dflt = (if length cols > i then cols ! i else dflt)"

text \<open>The body of the loading loop for one line: \<open>None\<close> stands for \<open>continue\<close>.\<close>

definition loadInbox_line :: "int \<Rightarrow> string \<Rightarrow> Rec option" where
  "loadInbox_line now line =
     (if trim line = [] then None
      else (let cols = splitTabs line;
                sdate = col cols 0 (todayISO now)
            in case parseISODate (trim sdate) of
                 None \<Rightarrow> None
               | Some d \<Rightarrow> Some \<lparr>date = d, kind = col cols 1 ''link'', url = col cols 2 [],
                                  title = col cols 3 [], tags = col cols 4 []\<rparr>))"

fun loadInbox_loop :: "int \<Rightarrow> string list \<Rightarrow> Rec list" where
  "loadInbox_loop now [] = []"
| "loadInbox_loop now (line # rest) =
     (case loadInbox_line now line of
        None \<Rightarrow> loadInbox_loop now rest
      | Some r \<Rightarrow> r # loadInbox_loop now rest)"

definition loadInbox :: "int \<Rightarrow> inbox_file \<Rightarrow> Rec list" where
  "loadInbox now f = (case f of None \<Rightarrow> [] | Some content \<Rightarrow> loadInbox_loop now (getlines content))"

text \<open>\<open>appendInbox\<close>: \<open>can_open\<close> tells whether opening the file for appending succeeds
  (an input from the file system).  The result is the returned flag and the file.\<close>

definition inbox_line :: "Rec \<Rightarrow> string" where
  "inbox_line r = joinTabs [fmtDate (date r), kind r, url r, title r, tags r]"

definition appendInbox :: "bool \<Rightarrow> Rec \<Rightarrow> inbox_file \<Rightarrow> bool \<times> inbox_file" where
  "appendInbox can_open r f =
     (if \<not> can_open then (False, f)
      else (True, Some ((case f of None \<Rightarrow> [] | Some content \<Rightarrow> content) @ inbox_line r @ [NL])))"

section \<open>Tag normalisation\<close>

text \<open>\<open>splitTags\<close>: \<open>iss >> cur\<close> skips white space and reads up to the next white space.\<close>

fun splitTags_from :: "string \<Rightarrow> string \<Rightarrow> string list" where
  "splitTags_from cur [] = (if cur = [] then [] else [cur])"
| "splitTags_from cur (c # cs) =
     (if isspace c then (if cur = [] then splitTags_from [] cs else cur # splitTags_from [] cs)
      else splitTags_from (cur @ [c]) cs)"

definition splitTags :: "string \<Rightarrow> string list" where
  "splitTags s = splitTags_from [] s"

fun isAllCapsWord_loop :: "bool \<Rightarrow> string \<Rightarrow> bool" where
  "isAllCapsWord_loop hasAlpha [] = hasAlpha"
| "isAllCapsWord_loop hasAlpha (c # cs) =
     (if isalpha c then (if \<not> isupper c then False else isAllCapsWord_loop True cs)
      else isAllCapsWord_loop hasAlpha cs)"

definition isAllCapsWord :: "string \<Rightarrow> bool" where
  "isAllCapsWord s = isAllCapsWord_loop False s"

definition normalizeTagDisplayOne :: "string \<Rightarrow> string" where
  "normalizeTagDisplayOne t0 =
     (let t = trim t0 in
      if t = [] then t
      else (let hadHash = (hd t = CHR ''#'');
                t1 = (if hadHash then tl t else t);
                hash = (if hadHash then ''#'' else [])
            in if isAllCapsWord t1 then hash @ t1
               else (case t1 of [] \<Rightarrow> hash @ t1 | c # cs \<Rightarrow> hash @ toupper c # cs)))"

fun normalizeTags_loop :: "string list \<Rightarrow> string list \<Rightarrow> string set \<Rightarrow> string list" where
  "normalizeTags_loop [] cleaned seen = cleaned"
| "normalizeTags_loop (t0 # raw) cleaned seen =
     (let t = trim t0 in
      if t = [] then normalizeTags_loop raw cleaned seen
      else (let t1 = (if hd t \<noteq> CHR ''#'' then CHR ''#'' # t else t) in
            if t1 \<notin> seen then normalizeTags_loop raw (cleaned @ [t1]) (insert t1 seen)
            else normalizeTags_loop raw cleaned seen))"

fun join_spaces :: "string list \<Rightarrow> string" where
  "join_spaces [] = []"
| "join_spaces [c] = c"
| "join_spaces (c # cs) = c @ CHR '' '' # join_spaces cs"

definition normalizeTagsForStorage :: "string list \<Rightarrow> string" where
  "normalizeTagsForStorage raw = join_spaces (normalizeTags_loop raw [] {})"

section \<open>Filtering\<close>

text \<open>The selection loop of \<open>filterByDateRange\<close>: records with \<open>a <= date <= b\<close> are
  pushed to \<open>out\<close> in the order of the input.\<close>

fun filter_loop :: "Rec list \<Rightarrow> int \<Rightarrow> int \<Rightarrow> Rec list" where
  "filter_loop [] a b = []"
| "filter_loop (r # rs) a b =
     (if date r \<ge> a \<and> date r \<le> b then r # filter_loop rs a b else filter_loop rs a b)"

text \<open>
  \<open>std::sort(first, last, comp)\<close> is library code with a contract: afterwards the range
  holds the same elements, ordered so that no later element compares less than an earlier
  one.  The order of elements that compare equivalent is left open (that is the difference
  to \<open>std::stable_sort\<close>).  \<open>std_sort_result cmp xs ys\<close> says that \<open>ys\<close> is a result the
  contract allows for the input \<open>xs\<close>.
\<close>

definition std_sort_result :: "('a \<Rightarrow> 'a \<Rightarrow> bool) \<Rightarrow> 'a list \<Rightarrow> 'a list \<Rightarrow> bool" where
  "std_sort_result cmp xs ys \<longleftrightarrow> mset ys = mset xs \<and> sorted_wrt (\<lambda>x y. \<not> cmp y x) ys"

text \<open>\<open>filterByDateRange all a b out\<close>: \<open>out\<close> is a value the function may return.\<close>

definition filterByDateRange :: "Rec list \<Rightarrow> int \<Rightarrow> int \<Rightarrow> Rec list \<Rightarrow> bool" where
  "filterByDateRange all a b out \<longleftrightarrow>
     std_sort_result (\<lambda>x y. date x < date y) (filter_loop all a b) out"

section \<open>Rendering\<close>

text \<open>
  \<open>urlDomain\<close> searches the URL for \<open>(?:https?://)?([^/]+)\<close>, case-insensitively, and
  returns the first capture, or the URL itself when nothing matches.  A match can start
  exactly at a character other than \<open>/\<close>, so the leftmost match starts at the first such
  character.  There the optional scheme is tried first; it is kept only if at least one
  character other than \<open>/\<close> follows it, otherwise the capture starts at the match start.
\<close>

definition match_scheme :: "string \<Rightarrow> string option" where
  "match_scheme s =
     (if map tolower (take 4 s) = ''http'' then
        (let r = drop 4 s in
         if map tolower (take 1 r) = ''s'' \<and> take 3 (drop 1 r) = ''://'' then Some (drop 4 r)
         else if take 3 r = ''://'' then Some (drop 3 r)
         else None)
      else None)"

definition not_slash :: "char \<Rightarrow> bool" where
  "not_slash c \<longleftrightarrow> c \<noteq> CHR ''/''"

definition urlDomain :: "string \<Rightarrow> string" where
  "urlDomain u =
     (let s = dropWhile (\<lambda>c. c = CHR ''/'') u in
      if s = [] then u
      else (case match_scheme s of
              None \<Rightarrow> takeWhile not_slash s
            | Some rest \<Rightarrow>
                if takeWhile not_slash rest \<noteq> [] then takeWhile not_slash rest
                else takeWhile not_slash s))"

text \<open>The em dash of the source text, as its three UTF-8 bytes.\<close>

definition emdash :: string where
  "emdash = [CHR 0xE2, CHR 0x80, CHR 0x94]"

definition recLineMarkdown :: "Rec \<Rightarrow> string" where
  "recLineMarkdown r =
     (let dom = urlDomain (url r);
          t = trim (title r);
          tgs = splitTags (tags r)
      in ''- ['' @ dom @ '']('' @ url r @ '') '' @ emdash @ '' *'' @ kind r @ ''*''
         @ (if t \<noteq> [] then '' '' @ emdash @ '' '' @ t else [])
         @ (if tgs \<noteq> [] then '' '' @ emdash @ '' '' @ join_spaces (map normalizeTagDisplayOne tgs)
            else []))"

text \<open>
  \<open>byTag\<close> is a \<open>std::map\<close> from the display form of a tag to a vector of pointers to
  rows.  It is kept as an association list in the key order of the map (\<open>std::string\<close>
  comparison, which is the lexicographic order on bytes); a pointer to a row is the row's
  index.  \<open>byTag_push disp i m\<close> is \<open>byTag[disp].push_back(&rows[i])\<close>.
\<close>

type_synonym tag_map = "(string \<times> nat list) list"

fun byTag_push :: "string \<Rightarrow> nat \<Rightarrow> tag_map \<Rightarrow> tag_map" where
  "byTag_push disp i [] = [(disp, [i])]"
| "byTag_push disp i ((k, ptrs) # m) =
     (if disp = k then (k, ptrs @ [i]) # m
      else if disp < k then (disp, [i]) # (k, ptrs) # m
      else (k, ptrs) # byTag_push disp i m)"

fun byTag_tokens :: "nat \<Rightarrow> string list \<Rightarrow> tag_map \<Rightarrow> tag_map" where
  "byTag_tokens i [] m = m"
| "byTag_tokens i (t # ts) m =
     (let disp = normalizeTagDisplayOne t in
      byTag_tokens i ts (if disp \<noteq> [] then byTag_push disp i m else m))"

fun byTag_rows :: "nat \<Rightarrow> Rec list \<Rightarrow> tag_map \<Rightarrow> tag_map" where
  "byTag_rows i [] m = m"
| "byTag_rows i (r # rs) m = byTag_rows (Suc i) rs (byTag_tokens i (splitTags (tags r)) m)"

definition byTag :: "Rec list \<Rightarrow> tag_map" where
  "byTag rows = byTag_rows 0 rows []"

text \<open>One group of the output: the heading line, one line per pointer, an empty line.\<close>

definition render_group :: "Rec list \<Rightarrow> string \<times> nat list \<Rightarrow> string" where
  "render_group rows g =
     ''### '' @ fst g @ [NL] @ concat (map (\<lambda>i. recLineMarkdown (rows ! i) @ [NL]) (snd g)) @ [NL]"

definition renderGroupedByTagsMarkdown :: "Rec list \<Rightarrow> string" where
  "renderGroupedByTagsMarkdown rows =
     (let m = byTag rows in
      ''## By Tag'' @ [NL, NL] @ concat (map (render_group rows) m)
        @ (if m = [] then ''(No tags in range)'' @ [NL] else []))"

section \<open>Commands\<close>

datatype error = Exit2 | Deref_nullopt

text \<open>The option loop of \<open>parseCLI\<close> for \<open>add\<close>, over the arguments after the URL.  A
  missing value and an invalid date end the process with \<open>exit(2)\<close>.\<close>

fun parseCLI_add :: "string list \<Rightarrow> Args \<Rightarrow> error + Args" where
  "parseCLI_add [] a = Inr a"
| "parseCLI_add [t] a =
     (if t = ''--title'' \<or> t = ''--date'' then Inl Exit2
      else Inr (a\<lparr>addTags := addTags a @ [t]\<rparr>))"
| "parseCLI_add (t # v # rest) a =
     (if t = ''--title'' then parseCLI_add rest (a\<lparr>addTitle := v\<rparr>)
      else if t = ''--date'' then
        (case parseISODate v of
           None \<Rightarrow> Inl Exit2
         | Some p \<Rightarrow> parseCLI_add rest (a\<lparr>addDateISO := Some (fmtDate p)\<rparr>))
      else parseCLI_add (v # rest) (a\<lparr>addTags := addTags a @ [t]\<rparr>))"

text \<open>
  \<open>cmd_add\<close>: the date is \<open>*parseISODate(...)\<close>, a dereference without a check, which is
  undefined when the parse fails; the model returns \<open>Deref_nullopt\<close> there.  Otherwise
  the result is the exit code and the inbox file.
\<close>

definition cmd_add :: "Rule list \<Rightarrow> int \<Rightarrow> bool \<Rightarrow> Args \<Rightarrow> inbox_file \<Rightarrow> error + (int \<times> inbox_file)" where
  "cmd_add rules now can_open a f =
     (case parseISODate (case addDateISO a of Some s \<Rightarrow> s | None \<Rightarrow> todayISO now) of
        None \<Rightarrow> Inl Deref_nullopt
      | Some d \<Rightarrow>
          (let r = \<lparr>date = d, kind = detectKind rules (Args.url a), url = Args.url a,
                    title = addTitle a, tags = normalizeTagsForStorage (addTags a)\<rparr>
           in case appendInbox can_open r f of
                (False, f') \<Rightarrow> Inr (1, f')
              | (True, f') \<Rightarrow> Inr (0, f')))"







section \<open>Auxiliary notions and sample data\<close>

text \<open>Every line \<open>appendInbox\<close> writes ends with a newline, so a store that only this
  program has written is absent, empty or ends with a newline.\<close>

definition newline_terminated :: "inbox_file \<Rightarrow> bool" where
  "newline_terminated f = (case f of None \<Rightarrow> True | Some L \<Rightarrow> L = [] \<or> last L = NL)"

text \<open>A log of a valid line, a line dated February 30th and a line holding a date only.\<close>

definition log3 :: string where
  "log3 = ''2023-01-01'' @ [TAB] @ ''video'' @ [TAB] @ ''https://youtu.be/x'' @ [TAB] @ ''T'' @ [TAB] @ ''#a'' @ [NL]
        @ ''2023-02-30'' @ [TAB] @ ''link'' @ [TAB] @ ''https://e.org'' @ [NL]
        @ ''2023-01-02'' @ [NL]"

text \<open>A record, and a stored line without its final newline.\<close>

definition rec_b :: Rec where
  "rec_b = \<lparr>date = 19359, kind = ''article'', url = ''https://e.org/p'', title = ''Second'', tags = ''#b''\<rparr>"

definition log_a :: string where
  "log_a = ''2023-01-01'' @ [TAB] @ ''link'' @ [TAB] @ ''u'' @ [TAB] @ ''t'' @ [TAB] @ ''#a''"

text \<open>The rules of the classifier example: \<open>.\<close> with label A, then \<open>x\<close> with label B.\<close>

definition rules_dot_x :: "Rule list" where
  "rules_dot_x = [\<lparr>re = regex_search_dot, kind = ''A''\<rparr>,
                  \<lparr>re = regex_search_char (CHR ''x''), kind = ''B''\<rparr>]"

text \<open>Seventeen records of one day, told apart by their url, and a rearrangement of them.\<close>

definition rows17 :: "Rec list" where
  "rows17 = map (\<lambda>c. \<lparr>date = 19358, kind = ''link'', url = [c], title = [], tags = []\<rparr>)
                ''abcdefghijklmnopq''"

definition out17 :: "Rec list" where
  "out17 = map (\<lambda>c. \<lparr>date = 19358, kind = ''link'', url = [c], title = [], tags = []\<rparr>)
               ''iqponmlkjahgfedcb''"

text \<open>The display forms of the tags a record carries, in the order of its tags column, and
  the pointer list a tag map holds for a key (empty when the key is absent).\<close>

definition tag_headings :: "Rec \<Rightarrow> string list" where
  "tag_headings r = map normalizeTagDisplayOne (splitTags (tags r))"

definition ptrs_of :: "tag_map \<Rightarrow> string \<Rightarrow> nat list" where
  "ptrs_of m k = (case map_of m k of None \<Rightarrow> [] | Some l \<Rightarrow> l)"

text \<open>A record with two tags, and one with three tags of which two differ in case only.\<close>

definition rec_ab :: Rec where
  "rec_ab = \<lparr>date = 19358, kind = ''code'', url = ''https://github.com/foo/bar'', title = ''Foo'', tags = ''#a #b''\<rparr>"

definition rec_aAb :: Rec where
  "rec_aAb = \<lparr>date = 19359, kind = ''pdf'', url = ''example.com/x.pdf'', title = [], tags = ''#a #A #b''\<rparr>"

text \<open>
  The grouped text as the specification describes it, to compare the renderer with: the
  display forms of all tags of all rows, each once, in ascending order; under a display
  form, the line of each row in input order, once for each of the row's tags with that
  display form; the placeholder when no row carries a tag.
\<close>

definition spec_heading_list :: "Rec list \<Rightarrow> string list" where
  "spec_heading_list rows = sort (remdups (concat (map tag_headings rows)))"

definition spec_lines_under :: "Rec list \<Rightarrow> string \<Rightarrow> string" where
  "spec_lines_under rows h =
     concat (map (\<lambda>r. concat (replicate (count_list (tag_headings r) h) (recLineMarkdown r @ [NL])))
                 rows)"

definition spec_grouped_text :: "Rec list \<Rightarrow> string" where
  "spec_grouped_text rows =
     ''## By Tag'' @ [NL, NL]
     @ concat (map (\<lambda>h. ''### '' @ h @ [NL] @ spec_lines_under rows h @ [NL])
                   (spec_heading_list rows))
     @ (if list_all (\<lambda>r. splitTags (tags r) = []) rows then ''(No tags in range)'' @ [NL] else [])"




section \<open>Calendar arithmetic\<close>

lemma int_div_bounds:
  fixes x k :: int
  assumes "0 < k"
  shows "k * (x div k) \<le> x" "x < k * (x div k) + k"
proof -
  have "x = k * (x div k) + x mod k" by simp
  moreover have "0 \<le> x mod k" "x mod k < k" using assms by simp_all
  ultimately show "k * (x div k) \<le> x" "x < k * (x div k) + k" by linarith+
qed

lemma div_step:
  fixes x y k :: int
  assumes "0 < k" "x \<le> y"
  shows "y div k - x div k \<le> y - x" "x div k \<le> y div k"
proof -
  have "y \<le> x + k * (y - x)"
    using assms mult_right_mono[of 1 k "y - x"] by simp
  then have "y div k \<le> (x + k * (y - x)) div k" by (rule zdiv_mono1) (use assms in simp)
  also have "\<dots> = x div k + (y - x)" using assms by simp
  finally show "y div k - x div k \<le> y - x" by simp
  show "x div k \<le> y div k" using assms by (simp add: zdiv_mono1)
qed

lemma yoe_mono:
  assumes "0 \<le> x" "x \<le> y" "y \<le> 146096"
  shows "yoe_of_doe x \<le> yoe_of_doe y"
proof -
  have a: "y div 1460 - x div 1460 \<le> y - x" using assms by (intro div_step) simp_all
  have b: "x div 36524 - x div 146096 \<le> y div 36524 - y div 146096"
  proof (cases "y = 146096")
    case True
    have "x div 36524 \<le> 4" using int_div_bounds[of 36524 x] assms by linarith
    moreover have "x div 36524 = 4 \<Longrightarrow> x div 146096 = 1"
      using int_div_bounds[of 36524 x] int_div_bounds[of 146096 x] assms by linarith
    moreover have "0 \<le> x div 146096" using int_div_bounds[of 146096 x] assms by linarith
    ultimately show ?thesis using True by simp
  next
    case False
    then have "y div 146096 = 0" using assms by simp
    moreover have "x div 146096 = 0" using assms False by simp
    moreover have "x div 36524 \<le> y div 36524" using assms by (intro div_step) simp_all
    ultimately show ?thesis by simp
  qed
  have "x - x div 1460 + x div 36524 - x div 146096 \<le> y - y div 1460 + y div 36524 - y div 146096"
    using a b by linarith
  then show ?thesis unfolding yoe_of_doe_def by (intro zdiv_mono1) simp_all
qed

lemma yoe_starts: "\<forall>q \<in> set [0..399]. yoe_of_doe (days_before_yoe q) = q"
  by code_simp

lemma yoe_ends: "\<forall>q \<in> set [1..399]. yoe_of_doe (days_before_yoe q - 1) = q - 1"
  by code_simp

lemma days_before_yoe_step: "days_before_yoe (q + 1) \<le> days_before_yoe q + 366"
  unfolding days_before_yoe_def
  using div_step(1)[of 4 q "q + 1"] div_step(2)[of 100 q "q + 1"]
  by simp

lemma days_before_yoe_range:
  assumes "0 \<le> q" "q \<le> 399"
  shows "0 \<le> days_before_yoe q" "days_before_yoe q \<le> 145731"
  unfolding days_before_yoe_def
  using assms int_div_bounds[of 4 q] int_div_bounds[of 100 q]
  by linarith+

lemma doe_bounds:
  assumes "0 \<le> doe" "doe \<le> 146096"
  shows "0 \<le> yoe_of_doe doe" "yoe_of_doe doe \<le> 399"
    "days_before_yoe (yoe_of_doe doe) \<le> doe" "doe \<le> days_before_yoe (yoe_of_doe doe) + 365"
proof -
  define q where "q = yoe_of_doe doe"
  have "yoe_of_doe 0 \<le> q" unfolding q_def using assms by (intro yoe_mono) simp_all
  then show q0: "0 \<le> yoe_of_doe doe" unfolding q_def by (simp add: yoe_of_doe_def)
  have "q \<le> yoe_of_doe 146096" unfolding q_def using assms by (intro yoe_mono) simp_all
  then show q399: "yoe_of_doe doe \<le> 399" unfolding q_def by (simp add: yoe_of_doe_def)
  have qr: "0 \<le> q" "q \<le> 399" using q0 q399 by (simp_all add: q_def)
  show "days_before_yoe (yoe_of_doe doe) \<le> doe"
  proof (rule ccontr)
    assume "\<not> days_before_yoe (yoe_of_doe doe) \<le> doe"
    then have lt: "doe \<le> days_before_yoe q - 1" by (simp add: q_def)
    have "q \<noteq> 0" using lt assms by (auto simp: days_before_yoe_def)
    then have "q \<in> set [1..399]" using qr by simp
    then have e: "yoe_of_doe (days_before_yoe q - 1) = q - 1" using yoe_ends by blast
    have "yoe_of_doe doe \<le> yoe_of_doe (days_before_yoe q - 1)"
      using assms lt days_before_yoe_range[OF qr] by (intro yoe_mono) simp_all
    then show False using e by (simp add: q_def)
  qed
  show "doe \<le> days_before_yoe (yoe_of_doe doe) + 365"
  proof (rule ccontr)
    assume "\<not> doe \<le> days_before_yoe (yoe_of_doe doe) + 365"
    then have gt: "days_before_yoe q + 366 \<le> doe" by (simp add: q_def)
    have "q \<noteq> 399" using gt assms by (auto simp: days_before_yoe_def)
    then have q1: "0 \<le> q + 1" "q + 1 \<le> 399" using qr by simp_all
    then have "q + 1 \<in> set [0..399]" by simp
    then have e: "yoe_of_doe (days_before_yoe (q + 1)) = q + 1" using yoe_starts by blast
    have "yoe_of_doe (days_before_yoe (q + 1)) \<le> yoe_of_doe doe"
      using assms gt days_before_yoe_step[of q] days_before_yoe_range[OF q1] by (intro yoe_mono) simp_all
    then show False using e by (simp add: q_def)
  qed
qed

lemma month_day_bounds:
  fixes doy :: int
  assumes "0 \<le> doy" "doy \<le> 365"
  defines "mp \<equiv> (5 * doy + 2) div 153"
  shows "0 \<le> mp" "mp \<le> 11"
    "1 \<le> doy - (153 * mp + 2) div 5 + 1" "doy - (153 * mp + 2) div 5 + 1 \<le> 31"
  using assms(1,2) int_div_bounds[of 153 "5 * doy + 2"] int_div_bounds[of 5 "153 * mp + 2"]
  unfolding mp_def by linarith+

text \<open>The civil date of a day count has a month in 1..12 and a day in 1..31, and the day
  count of that civil date is the one started from.\<close>

lemma civil_from_days_props:
  assumes "civil_from_days z = (y, m, d)"
  shows "1 \<le> m" "m \<le> 12" "1 \<le> d" "d \<le> 31" "days_from_civil y m d = z"
proof -
  define era where "era = (z + 719468) div 146097"
  define doe where "doe = z + 719468 - era * 146097"
  define yoe where "yoe = yoe_of_doe doe"
  define doy where "doy = doe - days_before_yoe yoe"
  define mp where "mp = (5 * doy + 2) div 153"
  have doe_r: "0 \<le> doe" "doe \<le> 146096"
    using int_div_bounds[of 146097 "z + 719468"] unfolding doe_def era_def by linarith+
  have yoe_r: "0 \<le> yoe" "yoe \<le> 399" and doy_r: "0 \<le> doy" "doy \<le> 365"
    using doe_bounds[OF doe_r] unfolding yoe_def doy_def by linarith+
  have mp_r: "0 \<le> mp" "mp \<le> 11"
    and d_r: "1 \<le> doy - (153 * mp + 2) div 5 + 1" "doy - (153 * mp + 2) div 5 + 1 \<le> 31"
    using month_day_bounds[OF doy_r] unfolding mp_def by simp_all
  have m_eq: "m = (if mp < 10 then mp + 3 else mp - 9)"
    and d_eq: "d = doy - (153 * mp + 2) div 5 + 1"
    and y_eq: "y = (if m \<le> 2 then yoe + era * 400 + 1 else yoe + era * 400)"
    using assms unfolding civil_from_days_def Let_def era_def[symmetric] doe_def[symmetric]
      yoe_def[symmetric] doy_def[symmetric] mp_def[symmetric]
    by auto
  show "1 \<le> m" "m \<le> 12" using m_eq mp_r by (simp_all split: if_splits)
  show "1 \<le> d" "d \<le> 31" using d_eq d_r by simp_all
  have y': "(if m \<le> 2 then y - 1 else y) = yoe + era * 400" using y_eq by simp
  have era': "(yoe + era * 400) div 400 = era" using yoe_r by simp
  have mp': "(if m > 2 then m - 3 else m + 9) = mp" using m_eq mp_r by (simp split: if_splits)
  have "days_from_civil y m d = era * 146097 + (days_before_yoe yoe + ((153 * mp + 2) div 5 + d - 1)) - 719468"
    unfolding days_from_civil_def Let_def y' era' mp' by simp
  also have "\<dots> = z" using d_eq unfolding doy_def doe_def by simp
  finally show "days_from_civil y m d = z" .
qed

section \<open>ISO weeks\<close>

lemma monday_weekday: "weekday_c_encoding (z - days_since_monday z) = 1"
  unfolding weekday_c_encoding_def days_since_monday_def by presburger

lemma days_since_monday_range: "0 \<le> days_since_monday z" "days_since_monday z \<le> 6"
  unfolding weekday_c_encoding_def days_since_monday_def by presburger+

lemma mondays_differ_by_weeks:
  assumes "weekday_c_encoding a = 1" "weekday_c_encoding b = 1"
  shows "7 * cpp_div (a - b) 7 = a - b"
proof -
  have "(a + 4) mod 7 = (b + 4) mod 7" using assms by (simp add: weekday_c_encoding_def)
  then have "(a + 4 - (b + 4)) mod 7 = 0" by (simp add: mod_eq_dvd_iff)
  then have dvd: "7 dvd (a - b)" by (simp add: dvd_eq_mod_eq_0)
  then obtain k where k: "a - b = 7 * k" by (auto simp: dvd_def)
  have "cpp_div (7 * k) 7 = k"
    by (cases "k < 0") (simp_all add: cpp_div_def abs_mult)
  then show ?thesis using k by simp
qed

lemma weekBounds_isoWeekFromDate:
  "monday (weekBounds (year (isoWeekFromDate z)) (week (isoWeekFromDate z))) = z - days_since_monday z"
  "sunday (weekBounds (year (isoWeekFromDate z)) (week (isoWeekFromDate z))) = z - days_since_monday z + 6"
proof -
  define jan4 where "jan4 = days_from_civil (fst (civil_from_days (z - days_since_monday z + 3))) 1 4"
  have "7 * cpp_div (z - days_since_monday z - (jan4 - days_since_monday jan4)) 7
        = z - days_since_monday z - (jan4 - days_since_monday jan4)"
    by (rule mondays_differ_by_weeks) (rule monday_weekday)+
  then show "monday (weekBounds (year (isoWeekFromDate z)) (week (isoWeekFromDate z))) = z - days_since_monday z"
    "sunday (weekBounds (year (isoWeekFromDate z)) (week (isoWeekFromDate z))) = z - days_since_monday z + 6"
    unfolding isoWeekFromDate_def weekBounds_def Let_def jan4_def by simp_all
qed

text \<open>
  C8.  \<open>isoWeekFromDate\<close> applied to 2023-01-01 (day 19358 since the epoch, a Sunday: weekday
  encoding 0) returns ISO year 2022 and week 52.
\<close>

theorem C8_isoWeek_of_2023_01_01:
  "parseISODate ''2023-01-01'' = Some 19358
   \<and> weekday_c_encoding 19358 = 0
   \<and> year (isoWeekFromDate 19358) = 2022
   \<and> week (isoWeekFromDate 19358) = 52"
  by code_simp

text \<open>
  C9.  For every date \<open>d\<close>, the week bounds computed from the ISO year and week of \<open>d\<close>
  bracket \<open>d\<close>: Monday is not after \<open>d\<close> and Sunday is not before it.
\<close>

theorem C9_weekBounds_bracket:
  "monday (weekBounds (year (isoWeekFromDate d)) (week (isoWeekFromDate d))) \<le> d
   \<and> d \<le> sunday (weekBounds (year (isoWeekFromDate d)) (week (isoWeekFromDate d)))"
  using days_since_monday_range[of d] by (simp add: weekBounds_isoWeekFromDate)

text \<open>
  C3.  \<open>0999-01-01\<close> is a valid calendar date that \<open>parseISODate\<close> accepts, and \<open>fmtDate\<close>
  prints it back without padding the year: the result is \<open>999-01-01\<close>, which is neither
  the input nor a string \<open>parseISODate\<close> accepts.
\<close>

theorem C3_fmtDate_drops_year_padding:
  "parseISODate ''0999-01-01'' = Some (- 354650)
   \<and> fmtDate (- 354650) = ''999-01-01''
   \<and> parseISODate (fmtDate (- 354650)) = None"
  by code_simp

section \<open>Properties of the decimal text\<close>

lemma digit_val_digit_char: "k < 10 \<Longrightarrow> digit_val (digit_char k) = int k"
  by (simp add: digit_val_def digit_char_def)

lemma isdigit_digit_char: "k < 10 \<Longrightarrow> isdigit (digit_char k)"
  by (simp add: isdigit_def digit_char_def less_eq_char_def)

lemma stoi_snoc: "stoi (s @ [c]) = 10 * stoi s + digit_val c"
  by (simp add: stoi_def)

lemma stoi_show_nat: "stoi (show_nat n) = int n"
proof (induction n rule: show_nat.induct)
  case (1 n)
  show ?case
  proof (cases "n < 10")
    case True
    then show ?thesis by (simp add: show_nat.simps[of n] stoi_def digit_val_digit_char)
  next
    case False
    then have "stoi (show_nat n) = 10 * int (n div 10) + int (n mod 10)"
      using 1 by (simp add: show_nat.simps[of n] stoi_snoc digit_val_digit_char)
    then show ?thesis by presburger
  qed
qed

lemma stoi_zeros: "stoi (replicate k (CHR ''0'') @ s) = stoi s"
proof -
  have "foldl (\<lambda>a c. 10 * a + digit_val c) 0 (replicate k (CHR ''0'')) = 0"
    by (induction k) (simp_all add: digit_val_def)
  then show ?thesis by (simp add: stoi_def)
qed

lemma length_show_nat_small:
  assumes "n < 100"
  shows "length (show_nat n) = (if n < 10 then 1 else 2)"
proof -
  have "n div 10 < 10" using assms by simp
  then show ?thesis by (simp add: show_nat.simps[of n] show_nat.simps[of "n div 10"])
qed

lemma pad2_props: "n < 100 \<Longrightarrow> length (pad2 n) = 2" "stoi (pad2 n) = int n"
  by (simp_all add: pad2_def Let_def length_show_nat_small stoi_zeros stoi_show_nat)

lemma show_int_digits: "list_all isdigit (show_int y) \<Longrightarrow> stoi (show_int y) = y"
  by (cases "y < 0") (simp_all add: show_int_def isdigit_def stoi_show_nat less_eq_char_def)

text \<open>A day count whose formatted text is accepted by the parser parses back to itself.\<close>

lemma parse_fmtDate:
  assumes "parseISODate (fmtDate z) \<noteq> None"
  shows "parseISODate (fmtDate z) = Some z"
proof -
  obtain y m d where c: "civil_from_days z = (y, m, d)" by (cases "civil_from_days z") auto
  note p = civil_from_days_props[OF c]
  define ys where "ys = show_int y"
  define ms where "ms = pad2 (nat m)"
  define ds where "ds = pad2 (nat d)"
  have f: "fmtDate z = ys @ CHR ''-'' # ms @ CHR ''-'' # ds"
    by (simp add: fmtDate_def c ys_def ms_def ds_def)
  have lm: "length ms = 2" and ld: "length ds = 2"
    using p by (simp_all add: ms_def ds_def pad2_props)
  obtain m1 m2 m3 where r: "regex_match_date (fmtDate z) = Some (m1, m2, m3)"
    using assms by (auto simp: parseISODate_def split: option.splits)
  then have len: "length (fmtDate z) = 10" and dig: "list_all isdigit (take 4 (fmtDate z))"
    and caps: "m1 = take 4 (fmtDate z)" "m2 = take 2 (drop 5 (fmtDate z))" "m3 = drop 8 (fmtDate z)"
    by (auto simp: regex_match_date_def split: if_splits)
  have ly: "length ys = 4" using len lm ld by (simp add: f)
  have m1: "m1 = ys" and m2: "m2 = ms" and m3: "m3 = ds"
    using caps ly lm ld by (simp_all add: f)
  have "stoi m1 = y" using dig ly show_int_digits[of y] by (simp add: m1 f ys_def)
  moreover have "stoi m2 = m" using p by (simp add: m2 ms_def pad2_props)
  moreover have "stoi m3 = d" using p by (simp add: m3 ds_def pad2_props)
  ultimately show ?thesis
    using p c by (simp add: parseISODate_def r Let_def)
qed

lemma fmtDate_shape:
  assumes "parseISODate (fmtDate z) \<noteq> None"
  shows "length (fmtDate z) = 10" "list_all isdigit (take 4 (fmtDate z))"
  using assms by (auto simp: parseISODate_def regex_match_date_def split: option.splits if_splits)

lemma isdigit_digit_char_ex:
  assumes "isdigit c"
  obtains k where "k < 10" "c = digit_char k"
proof -
  have r: "48 \<le> (of_char c :: nat)" "(of_char c :: nat) \<le> 57"
    using assms by (simp_all add: isdigit_def less_eq_char_def)
  define k where "k = (of_char c :: nat) - 48"
  have "k < 10" using r by (simp add: k_def)
  moreover have "c = digit_char k" using r by (simp add: k_def digit_char_def)
  ultimately show ?thesis using that by blast
qed

lemma show_nat_step: "0 < n \<Longrightarrow> k < 10 \<Longrightarrow> show_nat (10 * n + k) = show_nat n @ [digit_char k]"
  by (subst show_nat.simps) simp

lemma show_nat_digit: "k < 10 \<Longrightarrow> show_nat k = [digit_char k]"
  by (subst show_nat.simps) simp

lemma digit_char_0: "digit_char 0 = CHR ''0''"
  by code_simp

lemma pad2_two_digits:
  assumes "isdigit a" "isdigit b"
  shows "pad2 (nat (stoi [a, b])) = [a, b]"
proof -
  obtain i where i: "i < 10" "a = digit_char i" using assms(1) by (rule isdigit_digit_char_ex)
  obtain j where j: "j < 10" "b = digit_char j" using assms(2) by (rule isdigit_digit_char_ex)
  have v: "nat (stoi [a, b]) = 10 * i + j"
    using i j by (simp add: stoi_def digit_val_digit_char)
  show ?thesis
  proof (cases "i = 0")
    case True
    have "show_nat (10 * i + j) = [b]" using True j show_nat_digit[of j] by simp
    moreover have "a = CHR ''0''" using True i digit_char_0 by simp
    ultimately show ?thesis unfolding v pad2_def Let_def by simp
  next
    case False
    have "show_nat (10 * i + j) = show_nat i @ [digit_char j]"
      by (rule show_nat_step) (use False j in simp_all)
    then have "show_nat (10 * i + j) = [a, b]" using i j show_nat_digit[of i] by simp
    then show ?thesis unfolding v pad2_def Let_def by simp
  qed
qed

lemma show_int_four_digits:
  assumes "isdigit a" "isdigit b" "isdigit c" "isdigit d" "1000 \<le> stoi [a, b, c, d]"
  shows "show_int (stoi [a, b, c, d]) = [a, b, c, d]"
proof -
  obtain i where i: "i < 10" "a = digit_char i" using assms(1) by (rule isdigit_digit_char_ex)
  obtain j where j: "j < 10" "b = digit_char j" using assms(2) by (rule isdigit_digit_char_ex)
  obtain k where k: "k < 10" "c = digit_char k" using assms(3) by (rule isdigit_digit_char_ex)
  obtain l where l: "l < 10" "d = digit_char l" using assms(4) by (rule isdigit_digit_char_ex)
  define n1 where "n1 = 10 * i + j"
  define n2 where "n2 = 10 * n1 + k"
  define n3 where "n3 = 10 * n2 + l"
  have v: "stoi [a, b, c, d] = int n3"
    using i j k l by (simp add: stoi_def digit_val_digit_char n1_def n2_def n3_def)
  have ipos: "0 < i"
    using assms(5) j k l unfolding v n3_def n2_def n1_def by (cases "i = 0") simp_all
  have s1: "show_nat n1 = [a, b]"
    unfolding n1_def using show_nat_step[OF ipos j(1)] show_nat_digit[OF i(1)] i j by simp
  have "show_nat n2 = show_nat n1 @ [digit_char k]"
    unfolding n2_def by (rule show_nat_step) (use ipos k in \<open>simp_all add: n1_def\<close>)
  then have s2: "show_nat n2 = [a, b, c]" using s1 k by simp
  have "show_nat n3 = show_nat n2 @ [digit_char l]"
    unfolding n3_def by (rule show_nat_step) (use ipos l in \<open>simp_all add: n1_def n2_def\<close>)
  then have s3: "show_nat n3 = [a, b, c, d]" using s2 l by simp
  show ?thesis unfolding v show_int_def using s3 by simp
qed

text \<open>For a year of 1000 or more, formatting a parsed date gives the text back.\<close>

lemma fmtDate_parseISODate_from_1000:
  assumes "parseISODate s = Some z" "1000 \<le> stoi (take 4 s)"
  shows "fmtDate z = s"
proof -
  obtain m1 m2 m3 where r: "regex_match_date s = Some (m1, m2, m3)"
    using assms(1) by (auto simp: parseISODate_def split: option.splits)
  then have len: "length s = 10" and d1: "list_all isdigit (take 4 s)" and h1: "s ! 4 = CHR ''-''"
    and d2: "list_all isdigit (take 2 (drop 5 s))" and h2: "s ! 7 = CHR ''-''"
    and d3: "list_all isdigit (drop 8 s)"
    and caps: "m1 = take 4 s" "m2 = take 2 (drop 5 s)" "m3 = drop 8 s"
    by (auto simp: regex_match_date_def split: if_splits)
  obtain c0 c1 c2 c3 c4 c5 c6 c7 c8 c9 where s: "s = [c0, c1, c2, c3, c4, c5, c6, c7, c8, c9]"
    using len by (auto simp: length_Suc_conv eval_nat_numeral)
  have dig: "isdigit c0" "isdigit c1" "isdigit c2" "isdigit c3" "isdigit c5" "isdigit c6"
    "isdigit c8" "isdigit c9" and hy: "c4 = CHR ''-''" "c7 = CHR ''-''"
    using d1 d2 d3 h1 h2 by (simp_all add: s)
  have m: "m1 = [c0, c1, c2, c3]" "m2 = [c5, c6]" "m3 = [c8, c9]" using caps by (simp_all add: s)
  have c: "civil_from_days z = (stoi m1, stoi m2, stoi m3)"
    using assms(1) by (auto simp: parseISODate_def r Let_def split: if_splits)
  have y: "show_int (stoi m1) = [c0, c1, c2, c3]"
    unfolding m using dig(1-4) assms(2) by (intro show_int_four_digits) (simp_all add: s)
  have mo: "pad2 (nat (stoi m2)) = [c5, c6]" unfolding m using dig(5,6) by (rule pad2_two_digits)
  have d: "pad2 (nat (stoi m3)) = [c8, c9]" unfolding m using dig(7,8) by (rule pad2_two_digits)
  show ?thesis by (simp add: fmtDate_def c y mo d s hy)
qed

text \<open>
  The \<open>add\<close> command relies on that round trip: \<open>parseCLI\<close> stores \<open>fmtDate\<close> of the
  parsed \<open>--date\<close> value and \<open>cmd_add\<close> dereferences \<open>parseISODate\<close> of the stored text.
  For \<open>--date 0999-01-01\<close> the stored text is \<open>999-01-01\<close> and the dereference is of an
  empty optional.
\<close>

lemma add_date_below_1000:
  "parseCLI_add [''--date'', ''0999-01-01'']
       \<lparr>Args.url = ''http://x'', addTags = [], addTitle = [], addDateISO = None\<rparr>
     = Inr \<lparr>Args.url = ''http://x'', addTags = [], addTitle = [], addDateISO = Some ''999-01-01''\<rparr>
   \<and> cmd_add [] 19358 True
        \<lparr>Args.url = ''http://x'', addTags = [], addTitle = [], addDateISO = Some ''999-01-01''\<rparr>
        (Some [])
     = Inl Deref_nullopt"
  by code_simp

section \<open>Properties of the record store\<close>

lemma splitTabs_from_notab: "TAB \<notin> set c \<Longrightarrow> splitTabs_from cur c = [cur @ c]"
  by (induction c arbitrary: cur) auto

lemma splitTabs_from_tab:
  "TAB \<notin> set c \<Longrightarrow> splitTabs_from cur (c @ TAB # rest) = (cur @ c) # splitTabs_from [] rest"
  by (induction c arbitrary: cur) auto

lemma splitTabs_nonempty: "splitTabs_from cur s \<noteq> []"
  by (induction s arbitrary: cur) auto

lemma splitTabs_five:
  assumes "TAB \<notin> set a" "TAB \<notin> set b" "TAB \<notin> set c" "TAB \<notin> set d" "TAB \<notin> set e"
  shows "splitTabs (joinTabs [a, b, c, d, e]) = [a, b, c, d, e]"
  using assms by (simp add: splitTabs_def splitTabs_from_tab splitTabs_from_notab)

lemma col_0: "col (splitTabs line) 0 dflt = hd (splitTabs line)"
  using splitTabs_nonempty[of "[]" line]
  by (cases "splitTabs line") (simp_all add: col_def splitTabs_def)

lemma getlines_from_line:
  "NL \<notin> set l \<Longrightarrow> getlines_from cur (l @ NL # rest) = (cur @ l) # getlines_from [] rest"
  by (induction l arbitrary: cur) auto

lemma getlines_from_append:
  "getlines_from cur (xs @ NL # ys) = getlines_from cur (xs @ [NL]) @ getlines_from [] ys"
  by (induction xs arbitrary: cur) auto

lemma getlines_append_line:
  assumes "L = [] \<or> last L = NL" "NL \<notin> set l"
  shows "getlines (L @ l @ [NL]) = getlines L @ [l]"
proof (cases "L = []")
  case True
  then show ?thesis using getlines_from_line[OF assms(2), of "[]" "[]"] by (simp add: getlines_def)
next
  case False
  then obtain L' where L: "L = L' @ [NL]" using assms(1) by (metis append_butlast_last_id)
  have "getlines (L @ l @ [NL]) = getlines_from [] (L' @ NL # (l @ [NL]))" by (simp add: getlines_def L)
  also have "\<dots> = getlines_from [] (L' @ [NL]) @ getlines_from [] (l @ [NL])"
    by (rule getlines_from_append)
  also have "getlines_from [] (l @ [NL]) = [l]"
    using getlines_from_line[OF assms(2), of "[]" "[]"] by simp
  finally show ?thesis by (simp add: getlines_def L)
qed

lemma loadInbox_loop_append:
  "loadInbox_loop now (xs @ ys) = loadInbox_loop now xs @ loadInbox_loop now ys"
  by (induction xs) (auto split: option.splits)

lemma loadInbox_loop_map_filter:
  "loadInbox_loop now ls = List.map_filter (loadInbox_line now) ls"
  by (induction ls) (auto simp: List.map_filter_simps split: option.splits)

lemma trim_id: "s \<noteq> [] \<Longrightarrow> \<not> isspace (hd s) \<Longrightarrow> \<not> isspace (last s) \<Longrightarrow> trim s = s"
proof -
  assume a: "s \<noteq> []" "\<not> isspace (hd s)" "\<not> isspace (last s)"
  then have "dropWhile isspace s = s" by (cases s) auto
  moreover have "dropWhile isspace (rev s) = rev s" using a by (cases "rev s") (auto simp: last_rev[symmetric] hd_rev)
  ultimately show ?thesis by (simp add: trim_def)
qed

lemma trim_nonempty: "s \<noteq> [] \<Longrightarrow> \<not> isspace (hd s) \<Longrightarrow> trim (s @ t) \<noteq> []"
proof -
  assume a: "s \<noteq> []" "\<not> isspace (hd s)"
  then have "dropWhile isspace (s @ t) = s @ t" by (cases s) auto
  then have "trim (s @ t) = rev (dropWhile isspace (rev (s @ t)))" by (simp add: trim_def)
  moreover have "dropWhile isspace (rev (s @ t)) \<noteq> []"
  proof -
    have "hd s \<in> set (rev (s @ t))" using a by (cases s) auto
    then have "\<exists>x \<in> set (rev (s @ t)). \<not> isspace x" using a by blast
    then show ?thesis by (metis dropWhile_eq_Nil_conv)
  qed
  ultimately show ?thesis by simp
qed

lemma isdigit_not_space: "isdigit c \<Longrightarrow> \<not> isspace c"
  by (auto simp: isdigit_def isspace_def less_eq_char_def)

lemma date_text_props:
  assumes "regex_match_date s \<noteq> None"
  shows "s \<noteq> []" "\<not> isspace (hd s)" "\<not> isspace (last s)" "TAB \<notin> set s" "NL \<notin> set s"
proof -
  have len: "length s = 10" and d1: "list_all isdigit (take 4 s)" and h1: "s ! 4 = CHR ''-''"
    and d2: "list_all isdigit (take 2 (drop 5 s))" and h2: "s ! 7 = CHR ''-''"
    and d3: "list_all isdigit (drop 8 s)"
    using assms by (auto simp: regex_match_date_def split: if_splits)
  obtain c0 c1 c2 c3 c4 c5 c6 c7 c8 c9 where s: "s = [c0, c1, c2, c3, c4, c5, c6, c7, c8, c9]"
    using len by (auto simp: length_Suc_conv eval_nat_numeral)
  have dig: "isdigit c0" "isdigit c1" "isdigit c2" "isdigit c3" "isdigit c5" "isdigit c6"
    "isdigit c8" "isdigit c9" and hy: "c4 = CHR ''-''" "c7 = CHR ''-''"
    using d1 d2 d3 h1 h2 by (simp_all add: s)
  have nd: "\<And>c. isdigit c \<Longrightarrow> c \<noteq> TAB \<and> c \<noteq> NL"
    by (auto simp: isdigit_def less_eq_char_def)
  show "s \<noteq> []" by (simp add: s)
  show "\<not> isspace (hd s)" using dig by (simp add: s isdigit_not_space)
  show "\<not> isspace (last s)" using dig by (simp add: s isdigit_not_space)
  show "TAB \<notin> set s" using dig hy nd by (auto simp: s)
  show "NL \<notin> set s" using dig hy nd by (auto simp: s)
qed

lemma parse_regex: "parseISODate s \<noteq> None \<Longrightarrow> regex_match_date s \<noteq> None"
  by (auto simp: parseISODate_def split: option.splits)

text \<open>The line written for a record loads back as that record.\<close>

lemma loadInbox_line_inbox_line:
  assumes "parseISODate (fmtDate (date r)) \<noteq> None"
    and "TAB \<notin> set (kind r)" "TAB \<notin> set (url r)" "TAB \<notin> set (title r)" "TAB \<notin> set (tags r)"
  shows "loadInbox_line now (inbox_line r) = Some r"
proof -
  define ds where "ds = fmtDate (date r)"
  note dp = date_text_props[OF parse_regex[OF assms(1)], folded ds_def]
  have cols: "splitTabs (inbox_line r) = [ds, kind r, url r, title r, tags r]"
    unfolding inbox_line_def ds_def[symmetric] using assms(2-5) dp(4) by (rule_tac splitTabs_five) 
  have line: "inbox_line r = ds @ TAB # joinTabs [kind r, url r, title r, tags r]"
    by (simp add: inbox_line_def ds_def)
  have nb: "trim (inbox_line r) \<noteq> []" unfolding line using dp(1,2) by (rule trim_nonempty)
  have td: "trim ds = ds" using dp(1-3) by (rule trim_id)
  have pd: "parseISODate ds = Some (date r)" unfolding ds_def using assms(1) by (rule parse_fmtDate)
  show ?thesis
    by (simp add: loadInbox_line_def nb cols col_def Let_def td pd)
qed

lemma set_inbox_line:
  "set (inbox_line r) = set (fmtDate (date r)) \<union> set (kind r) \<union> set (url r) \<union> set (title r)
      \<union> set (tags r) \<union> {TAB}"
  by (auto simp: inbox_line_def)

lemma loadInbox_three_lines:
  assumes "NL \<notin> set l1" "NL \<notin> set c" "NL \<notin> set l2"
  shows "loadInbox now (Some (l1 @ [NL] @ c @ [NL] @ l2 @ [NL]))
         = loadInbox_loop now [l1, c, l2]"
proof -
  have "getlines (l1 @ NL # c @ NL # l2 @ [NL]) = [l1, c, l2]"
    using assms by (simp add: getlines_def getlines_from_line)
  then show ?thesis by (simp add: loadInbox_def)
qed

lemma loadInbox_line_hd:
  "loadInbox_line now line =
     (if trim line = [] then None
      else case parseISODate (trim (hd (splitTabs line))) of
             None \<Rightarrow> None
           | Some d \<Rightarrow> Some \<lparr>date = d, kind = col (splitTabs line) 1 ''link'',
                              url = col (splitTabs line) 2 [], title = col (splitTabs line) 3 [],
                              tags = col (splitTabs line) 4 []\<rparr>)"
  by (simp add: loadInbox_line_def Let_def col_0)

text \<open>
  C7 (amended).  Loading keeps, in file order, exactly the lines that are not blank and
  whose first column, trimmed of surrounding white space, parses as a calendar date.  A
  kept line gives a record with that date; a missing kind defaults to \<open>link\<close>, a missing
  url, title or tags column to the empty string.  A log of a valid line, a line with a bad
  date and another valid line loads as the two valid records.
\<close>

theorem C7_loadInbox_skips_bad_dates:
  "loadInbox now (Some content) = List.map_filter (loadInbox_line now) (getlines content)
   \<and> (loadInbox_line now line = None
        \<longleftrightarrow> trim line = [] \<or> parseISODate (trim (hd (splitTabs line))) = None)
   \<and> (\<forall>r. loadInbox_line now line = Some r \<longrightarrow>
          parseISODate (trim (hd (splitTabs line))) = Some (date r)
        \<and> kind r = (if length (splitTabs line) > 1 then splitTabs line ! 1 else ''link'')
        \<and> url r = (if length (splitTabs line) > 2 then splitTabs line ! 2 else [])
        \<and> title r = (if length (splitTabs line) > 3 then splitTabs line ! 3 else [])
        \<and> tags r = (if length (splitTabs line) > 4 then splitTabs line ! 4 else []))
   \<and> (NL \<notin> set l1 \<and> NL \<notin> set c \<and> NL \<notin> set l2
        \<and> loadInbox_line now l1 = Some r1 \<and> trim c \<noteq> []
        \<and> parseISODate (trim (hd (splitTabs c))) = None \<and> loadInbox_line now l2 = Some r2
        \<longrightarrow> loadInbox now (Some (l1 @ [NL] @ c @ [NL] @ l2 @ [NL])) = [r1, r2])"
proof -
  have a: "loadInbox now (Some content) = List.map_filter (loadInbox_line now) (getlines content)"
    by (simp add: loadInbox_def loadInbox_loop_map_filter)
  have b: "loadInbox_line now l = None
        \<longleftrightarrow> trim l = [] \<or> parseISODate (trim (hd (splitTabs l))) = None" for l
    by (simp add: loadInbox_line_hd split: option.splits)
  have c: "\<forall>r. loadInbox_line now line = Some r \<longrightarrow>
          parseISODate (trim (hd (splitTabs line))) = Some (date r)
        \<and> kind r = (if length (splitTabs line) > 1 then splitTabs line ! 1 else ''link'')
        \<and> url r = (if length (splitTabs line) > 2 then splitTabs line ! 2 else [])
        \<and> title r = (if length (splitTabs line) > 3 then splitTabs line ! 3 else [])
        \<and> tags r = (if length (splitTabs line) > 4 then splitTabs line ! 4 else [])"
    by (auto simp: loadInbox_line_hd col_def split: option.splits if_splits)
  have d: "NL \<notin> set l1 \<and> NL \<notin> set c \<and> NL \<notin> set l2
        \<and> loadInbox_line now l1 = Some r1 \<and> trim c \<noteq> []
        \<and> parseISODate (trim (hd (splitTabs c))) = None \<and> loadInbox_line now l2 = Some r2
        \<longrightarrow> loadInbox now (Some (l1 @ [NL] @ c @ [NL] @ l2 @ [NL])) = [r1, r2]"
  proof (intro impI, elim conjE)
    assume h: "NL \<notin> set l1" "NL \<notin> set c" "NL \<notin> set l2" "loadInbox_line now l1 = Some r1"
      "parseISODate (trim (hd (splitTabs c))) = None" "loadInbox_line now l2 = Some r2"
    have "loadInbox_line now c = None" using h(5) b[of c] by simp
    then show "loadInbox now (Some (l1 @ [NL] @ c @ [NL] @ l2 @ [NL])) = [r1, r2]"
      using loadInbox_three_lines[OF h(1-3), of now] h(4,6) by simp
  qed
  show ?thesis using a b[of line] c d by blast
qed

theorem C7_loadInbox_witness:
  "loadInbox 0 (Some log3)
     = [\<lparr>date = 19358, kind = ''video'', url = ''https://youtu.be/x'', title = ''T'', tags = ''#a''\<rparr>,
        \<lparr>date = 19359, kind = ''link'', url = [], title = [], tags = []\<rparr>]"
proof -
  define l1 where "l1 = ''2023-01-01'' @ [TAB] @ ''video'' @ [TAB] @ ''https://youtu.be/x'' @ [TAB] @ ''T'' @ [TAB] @ ''#a''"
  define c where "c = ''2023-02-30'' @ [TAB] @ ''link'' @ [TAB] @ ''https://e.org''"
  define l2 where "l2 = ''2023-01-02''"
  define r1 where "r1 = \<lparr>date = 19358, kind = ''video'', url = ''https://youtu.be/x'', title = ''T'', tags = ''#a''\<rparr>"
  define r2 where "r2 = \<lparr>date = 19359, kind = ''link'', url = [], title = [], tags = []\<rparr>"
  have h: "NL \<notin> set l1 \<and> NL \<notin> set c \<and> NL \<notin> set l2
        \<and> loadInbox_line 0 l1 = Some r1 \<and> trim c \<noteq> []
        \<and> parseISODate (trim (hd (splitTabs c))) = None \<and> loadInbox_line 0 l2 = Some r2"
    unfolding l1_def c_def l2_def r1_def r2_def by code_simp
  have "loadInbox 0 (Some (l1 @ [NL] @ c @ [NL] @ l2 @ [NL])) = [r1, r2]"
    using C7_loadInbox_skips_bad_dates[of 0 "[]" "[]" l1 c l2 r1 r2] h by blast
  then show ?thesis by (simp add: log3_def l1_def c_def l2_def r1_def r2_def)
qed

text \<open>
  C7 as stated fails: the date column \<open>" 2023-01-01"\<close> (leading blank) does not parse as
  a calendar date, yet the line is kept, because the loader trims the column first.
\<close>

theorem C7_counterexample:
  "parseISODate (hd (splitTabs ('' 2023-01-01'' @ [TAB] @ ''link'' @ [TAB] @ ''u''))) = None
   \<and> loadInbox 0 (Some ('' 2023-01-01'' @ [TAB] @ ''link'' @ [TAB] @ ''u'' @ [NL]))
       = [\<lparr>date = 19358, kind = ''link'', url = ''u'', title = [], tags = []\<rparr>]"
  by code_simp

text \<open>
  C10 (amended).  If the inbox file is absent, empty or ends with a newline, and the record's
  kind, url, title and tags hold no tab and no newline and its date formats to a text the
  parser accepts, then appending the record and loading gives the records loaded before,
  followed by the record.
\<close>

theorem C10_append_then_load:
  assumes "newline_terminated f"
    and "parseISODate (fmtDate (date r)) \<noteq> None"
    and "TAB \<notin> set (kind r) \<and> NL \<notin> set (kind r)"
    and "TAB \<notin> set (url r) \<and> NL \<notin> set (url r)"
    and "TAB \<notin> set (title r) \<and> NL \<notin> set (title r)"
    and "TAB \<notin> set (tags r) \<and> NL \<notin> set (tags r)"
  shows "fst (appendInbox True r f)
       \<and> loadInbox now (snd (appendInbox True r f)) = loadInbox now f @ [r]"
proof -
  define L where "L = (case f of None \<Rightarrow> [] | Some content \<Rightarrow> content)"
  have Lnl: "L = [] \<or> last L = NL"
    using assms(1) by (auto simp: newline_terminated_def L_def split: option.splits)
  have nl: "NL \<notin> set (inbox_line r)"
    using assms(3-6) date_text_props(5)[OF parse_regex[OF assms(2)]] by (simp add: set_inbox_line)
  have line: "loadInbox_line now (inbox_line r) = Some r"
    using assms by (intro loadInbox_line_inbox_line) simp_all
  have old: "loadInbox now f = loadInbox_loop now (getlines L)"
    by (cases f) (simp_all add: loadInbox_def L_def getlines_def)
  have "loadInbox now (snd (appendInbox True r f)) = loadInbox_loop now (getlines (L @ inbox_line r @ [NL]))"
    by (simp add: appendInbox_def loadInbox_def L_def)
  also have "\<dots> = loadInbox_loop now (getlines L) @ [r]"
    by (simp add: getlines_append_line[OF Lnl nl] loadInbox_loop_append line)
  finally show ?thesis using old by (simp add: appendInbox_def)
qed

theorem C10_append_then_load_witness:
  "newline_terminated (Some (log_a @ [NL]))
   \<and> parseISODate (fmtDate (date rec_b)) \<noteq> None
   \<and> loadInbox 0 (snd (appendInbox True rec_b (Some (log_a @ [NL]))))
       = [\<lparr>date = 19358, kind = ''link'', url = ''u'', title = ''t'', tags = ''#a''\<rparr>, rec_b]"
proof -
  have h1: "newline_terminated (Some (log_a @ [NL]))" by (simp add: newline_terminated_def)
  have h2: "parseISODate (fmtDate (date rec_b)) \<noteq> None" by code_simp
  have h3: "TAB \<notin> set (kind rec_b) \<and> NL \<notin> set (kind rec_b)" by code_simp
  have h4: "TAB \<notin> set (url rec_b) \<and> NL \<notin> set (url rec_b)" by code_simp
  have h5: "TAB \<notin> set (title rec_b) \<and> NL \<notin> set (title rec_b)" by code_simp
  have h6: "TAB \<notin> set (tags rec_b) \<and> NL \<notin> set (tags rec_b)" by code_simp
  have old: "loadInbox 0 (Some (log_a @ [NL]))
      = [\<lparr>date = 19358, kind = ''link'', url = ''u'', title = ''t'', tags = ''#a''\<rparr>]"
    by code_simp
  show ?thesis using h1 h2 C10_append_then_load[OF h1 h2 h3 h4 h5 h6, of 0] old by simp
qed

text \<open>
  C10 as stated fails for a store whose last line has no newline: the appended text
  continues that line, so the stored record changes and the new record is not loaded.
\<close>

theorem C10_counterexample:
  "parseISODate (fmtDate (date rec_b)) \<noteq> None
   \<and> TAB \<notin> set (kind rec_b @ url rec_b @ title rec_b @ tags rec_b)
   \<and> NL \<notin> set (kind rec_b @ url rec_b @ title rec_b @ tags rec_b)
   \<and> loadInbox 0 (Some log_a) = [\<lparr>date = 19358, kind = ''link'', url = ''u'', title = ''t'', tags = ''#a''\<rparr>]
   \<and> loadInbox 0 (snd (appendInbox True rec_b (Some log_a)))
       = [\<lparr>date = 19358, kind = ''link'', url = ''u'', title = ''t'', tags = ''#a2023-01-02''\<rparr>]"
  by code_simp

text \<open>
  C1.  \<open>curate add http://x --title "a<TAB>b"\<close> on 2023-01-01 with no rules and the empty inbox
  that \<open>main\<close> creates on the first run:
  the title is written as it is, so the persisted line splits into six columns, and on
  loading the title is \<open>a\<close> and the tags column is \<open>b\<close>.
\<close>

theorem C1_add_writes_title_tab:
  "parseCLI_add [''--title'', ''a'' @ [TAB] @ ''b'']
       \<lparr>Args.url = ''http://x'', addTags = [], addTitle = [], addDateISO = None\<rparr>
     = Inr \<lparr>Args.url = ''http://x'', addTags = [], addTitle = ''a'' @ [TAB] @ ''b'', addDateISO = None\<rparr>
   \<and> cmd_add [] 19358 True
        \<lparr>Args.url = ''http://x'', addTags = [], addTitle = ''a'' @ [TAB] @ ''b'', addDateISO = None\<rparr> (Some [])
     = Inr (0, Some (''2023-01-01'' @ [TAB] @ ''article'' @ [TAB] @ ''http://x'' @ [TAB] @ ''a''
                      @ [TAB] @ ''b'' @ [TAB] @ [NL]))
   \<and> splitTabs (''2023-01-01'' @ [TAB] @ ''article'' @ [TAB] @ ''http://x'' @ [TAB] @ ''a''
                      @ [TAB] @ ''b'' @ [TAB])
     = [''2023-01-01'', ''article'', ''http://x'', ''a'', ''b'', []]
   \<and> loadInbox 19358 (Some (''2023-01-01'' @ [TAB] @ ''article'' @ [TAB] @ ''http://x'' @ [TAB] @ ''a''
                      @ [TAB] @ ''b'' @ [TAB] @ [NL]))
     = [\<lparr>date = 19358, kind = ''article'', url = ''http://x'', title = ''a'', tags = ''b''\<rparr>]"
  by code_simp

section \<open>Classifier\<close>

lemma detectKind_first:
  "i < length rules \<Longrightarrow> re (rules ! i) u \<Longrightarrow> (\<forall>j<i. \<not> re (rules ! j) u)
   \<Longrightarrow> detectKind rules u = Rule.kind (rules ! i)"
proof (induction rules arbitrary: i)
  case Nil
  then show ?case by simp
next
  case (Cons r rs)
  show ?case
  proof (cases i)
    case 0
    then show ?thesis using Cons.prems by simp
  next
    case (Suc k)
    have "\<not> re r u" using Cons.prems(3) Suc by auto
    moreover have "\<forall>j<k. \<not> re (rs ! j) u" using Cons.prems(3) Suc by auto
    ultimately show ?thesis using Cons.IH[of k] Cons.prems(1,2) Suc by simp
  qed
qed

lemma detectKind_none: "(\<forall>r \<in> set rules. \<not> re r u) \<Longrightarrow> detectKind rules u = ''article''"
  by (induction rules) simp_all

text \<open>
  C6.  \<open>detectKind\<close> returns the label of the first rule, in list order, whose pattern is
  found in the URL, and \<open>article\<close> when no rule's pattern is found.  With the rules
  \<open>(".", "A")\<close>, \<open>("x", "B")\<close> in that order, both patterns are found in \<open>xyz\<close> and the
  result is \<open>A\<close>; the search ignores case (\<open>x\<close> is found in \<open>XYZ\<close>).
\<close>

theorem C6_detectKind_first_match:
  "(\<forall>i<length rules. re (rules ! i) u \<and> (\<forall>j<i. \<not> re (rules ! j) u)
        \<longrightarrow> detectKind rules u = Rule.kind (rules ! i))
   \<and> ((\<forall>r \<in> set rules. \<not> re r u) \<longrightarrow> detectKind rules u = ''article'')
   \<and> regex_search_dot ''xyz'' \<and> regex_search_char (CHR ''x'') ''xyz''
   \<and> regex_search_char (CHR ''x'') ''XYZ''
   \<and> detectKind rules_dot_x ''xyz'' = ''A''"
proof -
  have "regex_search_dot ''xyz'' \<and> regex_search_char (CHR ''x'') ''xyz''
     \<and> regex_search_char (CHR ''x'') ''XYZ'' \<and> detectKind rules_dot_x ''xyz'' = ''A''"
    by code_simp
  then show ?thesis using detectKind_first[of _ rules u] detectKind_none[of rules u] by blast
qed

theorem C6_detectKind_witness:
  "detectKind (rev rules_dot_x) ''abc'' = ''A'' \<and> detectKind (tl rules_dot_x) ''abc'' = ''article''"
proof -
  have h1: "1 < length (rev rules_dot_x) \<and> re (rev rules_dot_x ! 1) ''abc''
      \<and> \<not> re (rev rules_dot_x ! 0) ''abc'' \<and> Rule.kind (rev rules_dot_x ! 1) = ''A''"
    by code_simp
  then have h1': "\<forall>j<1. \<not> re (rev rules_dot_x ! j) ''abc''" by simp
  have h2: "\<forall>r \<in> set (tl rules_dot_x). \<not> re r ''abc''" by code_simp
  have "detectKind (rev rules_dot_x) ''abc'' = Rule.kind (rev rules_dot_x ! 1)"
    using C6_detectKind_first_match[of "rev rules_dot_x" "''abc''"] h1 h1' by blast
  moreover have "detectKind (tl rules_dot_x) ''abc'' = ''article''"
    using C6_detectKind_first_match[of "tl rules_dot_x" "''abc''"] h2 by blast
  ultimately show ?thesis using h1 by simp
qed

section \<open>Archiving\<close>









section \<open>Filtering\<close>

lemma filter_loop_filter: "filter_loop all a b = filter (\<lambda>r. a \<le> date r \<and> date r \<le> b) all"
  by (induction all) simp_all

lemma std_sort_result_by_date:
  assumes "std_sort_result (\<lambda>x y. date x < date y) xs ys"
  shows "mset ys = mset xs" "sorted (map date ys)"
proof -
  show "mset ys = mset xs" using assms by (simp add: std_sort_result_def)
  have "sorted_wrt (\<lambda>x y. \<not> date y < date x) ys" using assms by (simp add: std_sort_result_def)
  then have "sorted_wrt (\<lambda>x y. date x \<le> date y) ys" by (simp add: not_less)
  then show "sorted (map date ys)" by (simp add: sorted_map)
qed

lemma std_sort_result_exists: "std_sort_result (\<lambda>x y. date x < date y) xs (sort_key date xs)"
proof -
  have "sorted (map date (sort_key date xs))" by (rule sorted_sort_key)
  then have "sorted_wrt (\<lambda>x y. date x \<le> date y) (sort_key date xs)" by (simp add: sorted_map)
  then show ?thesis by (simp add: std_sort_result_def not_less)
qed

text \<open>
  C2 (amended).  \<open>filterByDateRange\<close> has a result for every input, and every result
  holds exactly the records of the input whose date \<open>d\<close> satisfies \<open>a <= d <= b\<close>, each as
  often as in the input, sorted ascending by date.  Both bounds are inclusive: a record
  dated \<open>a\<close> or \<open>b\<close> is in the result (when \<open>a <= b\<close>), a record dated a day before \<open>a\<close> or a
  day after \<open>b\<close> is not.  The result that keeps the input order among equal dates is one of
  the results allowed; nothing is said about which one is returned.
\<close>

theorem C2_filterByDateRange_inclusive_sorted:
  "filterByDateRange all a b (sort_key date (filter_loop all a b))
   \<and> (\<forall>out. filterByDateRange all a b out \<longrightarrow>
          mset out = mset (filter (\<lambda>r. a \<le> date r \<and> date r \<le> b) all)
        \<and> sorted (map date out)
        \<and> (\<forall>r \<in> set all. a \<le> b \<and> (date r = a \<or> date r = b) \<longrightarrow> r \<in> set out)
        \<and> (\<forall>r. date r = a - 1 \<or> date r = b + 1 \<longrightarrow> r \<notin> set out))"
proof -
  have ex: "filterByDateRange all a b (sort_key date (filter_loop all a b))"
    by (simp add: filterByDateRange_def std_sort_result_exists)
  have "mset out = mset (filter (\<lambda>r. a \<le> date r \<and> date r \<le> b) all)
        \<and> sorted (map date out)
        \<and> (\<forall>r \<in> set all. a \<le> b \<and> (date r = a \<or> date r = b) \<longrightarrow> r \<in> set out)
        \<and> (\<forall>r. date r = a - 1 \<or> date r = b + 1 \<longrightarrow> r \<notin> set out)"
    if h: "filterByDateRange all a b out" for out
  proof -
    have m: "mset out = mset (filter (\<lambda>r. a \<le> date r \<and> date r \<le> b) all)"
      and s: "sorted (map date out)"
      using std_sort_result_by_date[OF h[unfolded filterByDateRange_def]]
      by (simp_all add: filter_loop_filter)
    have "set out = set (filter (\<lambda>r. a \<le> date r \<and> date r \<le> b) all)"
      using m by (rule mset_eq_setD)
    then have st: "set out = {r \<in> set all. a \<le> date r \<and> date r \<le> b}" by simp
    show ?thesis using m s st by auto
  qed
  then show ?thesis using ex by blast
qed

theorem C2_filterByDateRange_witness:
  "filterByDateRange rows17 19358 19358 out17 \<and> sorted (map date out17) \<and> set out17 = set rows17"
proof -
  have h: "filterByDateRange rows17 19358 19358 out17"
    unfolding filterByDateRange_def std_sort_result_def rows17_def out17_def by simp
  have r: "filter (\<lambda>r. 19358 \<le> date r \<and> date r \<le> 19358) rows17 = rows17"
    unfolding rows17_def by simp
  have "mset out17 = mset rows17 \<and> sorted (map date out17)"
    using C2_filterByDateRange_inclusive_sorted[of rows17 19358 19358] h r by auto
  then show ?thesis using h mset_eq_setD by blast
qed

text \<open>
  C2 as stated fails: for seventeen records of one day, \<open>out17\<close> is a result the contract
  of \<open>std::sort\<close> allows, and it is not the input order.  (It is the order GNU libstdc++
  produces for this input: above sixteen elements its introsort swaps the middle element
  to the front and then partitions, exchanging the elements pairwise from both ends.)
\<close>

theorem C2_counterexample:
  "filter_loop rows17 19358 19358 = rows17
   \<and> filterByDateRange rows17 19358 19358 out17
   \<and> list_all (\<lambda>r. date r = 19358) rows17
   \<and> out17 \<noteq> rows17"
  unfolding filterByDateRange_def std_sort_result_def rows17_def out17_def by simp

section \<open>Grouping by tag\<close>

lemma splitTags_from_tokens:
  "\<forall>c \<in> set cur. \<not> isspace c \<Longrightarrow> t \<in> set (splitTags_from cur s)
   \<Longrightarrow> t \<noteq> [] \<and> (\<forall>c \<in> set t. \<not> isspace c)"
proof (induction s arbitrary: cur)
  case Nil
  then show ?case by (auto split: if_splits)
next
  case (Cons a s)
  show ?case
  proof (cases "isspace a")
    case True
    have e: "\<forall>c \<in> set ([]::string). \<not> isspace c" by simp
    show ?thesis
    proof (cases "cur = []")
      case c: True
      then have "t \<in> set (splitTags_from [] s)" using Cons.prems(2) True by simp
      then show ?thesis using Cons.IH[OF e] by simp
    next
      case c: False
      then have "t = cur \<or> t \<in> set (splitTags_from [] s)" using Cons.prems(2) True by simp
      then show ?thesis using Cons.IH[OF e] Cons.prems(1) c by blast
    qed
  next
    case False
    then have "t \<in> set (splitTags_from (cur @ [a]) s)" using Cons.prems(2) by simp
    moreover have "\<forall>c \<in> set (cur @ [a]). \<not> isspace c" using Cons.prems(1) False by simp
    ultimately show ?thesis using Cons.IH by blast
  qed
qed

lemma splitTags_tokens:
  "t \<in> set (splitTags s) \<Longrightarrow> t \<noteq> [] \<and> (\<forall>c \<in> set t. \<not> isspace c)"
  using splitTags_from_tokens[of "[]" t s] by (simp add: splitTags_def)

lemma normalizeTagDisplayOne_nonempty: "trim t \<noteq> [] \<Longrightarrow> normalizeTagDisplayOne t \<noteq> []"
  by (auto simp: normalizeTagDisplayOne_def Let_def split: list.splits)

lemma token_heading_nonempty:
  assumes "t \<in> set (splitTags s)"
  shows "normalizeTagDisplayOne t \<noteq> []"
proof -
  have t: "t \<noteq> []" "\<forall>c \<in> set t. \<not> isspace c" using splitTags_tokens[OF assms] by simp_all
  then have "\<not> isspace (hd t)" "\<not> isspace (last t)" by simp_all
  then have "trim t = t" using t(1) by (intro trim_id)
  then show ?thesis using t(1) by (intro normalizeTagDisplayOne_nonempty) simp
qed

lemma byTag_push_keys: "fst ` set (byTag_push k i m) = insert k (fst ` set m)"
  by (induction k i m rule: byTag_push.induct) auto

lemma byTag_push_sorted:
  "sorted_wrt (<) (map fst m) \<Longrightarrow> sorted_wrt (<) (map fst (byTag_push k i m))"
proof (induction m)
  case Nil
  then show ?case by simp
next
  case (Cons e m)
  obtain k' ptrs where e: "e = (k', ptrs)" by (cases e)
  show ?case
  proof (cases "k = k' \<or> k < k'")
    case True
    then show ?thesis using Cons.prems e by auto
  next
    case False
    then have lt: "k' < k" by auto
    have "\<forall>x \<in> fst ` set (byTag_push k i m). k' < x"
      using Cons.prems lt unfolding byTag_push_keys e by auto
    moreover have "sorted_wrt (<) (map fst (byTag_push k i m))" using Cons by simp
    ultimately show ?thesis using False e by simp
  qed
qed

lemma byTag_push_ptrs:
  "sorted_wrt (<) (map fst m)
   \<Longrightarrow> ptrs_of (byTag_push k i m) k' = (if k' = k then ptrs_of m k @ [i] else ptrs_of m k')"
proof (induction m)
  case Nil
  then show ?case by (simp add: ptrs_of_def)
next
  case (Cons e m)
  obtain k0 ptrs where e: "e = (k0, ptrs)" by (cases e)
  have IH: "ptrs_of (byTag_push k i m) k' = (if k' = k then ptrs_of m k @ [i] else ptrs_of m k')"
    using Cons by simp
  show ?case
  proof (cases "k = k0")
    case True
    then show ?thesis by (simp add: e ptrs_of_def)
  next
    case ne: False
    show ?thesis
    proof (cases "k < k0")
      case True
      have "\<forall>x \<in> set (map fst m). k0 < x" using Cons.prems e by simp
      then have "k \<notin> fst ` set m" using True by force
      then have "map_of m k = None" by (simp add: map_of_eq_None_iff)
      then show ?thesis using True ne by (simp add: e ptrs_of_def)
    next
      case False
      then show ?thesis using ne IH by (auto simp: e ptrs_of_def)
    qed
  qed
qed

lemma byTag_tokens_sorted:
  "sorted_wrt (<) (map fst m) \<Longrightarrow> sorted_wrt (<) (map fst (byTag_tokens i ts m))"
  by (induction ts arbitrary: m) (simp_all add: Let_def byTag_push_sorted)

lemma byTag_tokens_keys:
  "\<forall>t \<in> set ts. normalizeTagDisplayOne t \<noteq> []
   \<Longrightarrow> fst ` set (byTag_tokens i ts m) = fst ` set m \<union> normalizeTagDisplayOne ` set ts"
  by (induction ts arbitrary: m) (simp_all add: Let_def byTag_push_keys)

lemma byTag_tokens_ptrs:
  "sorted_wrt (<) (map fst m) \<Longrightarrow> \<forall>t \<in> set ts. normalizeTagDisplayOne t \<noteq> []
   \<Longrightarrow> ptrs_of (byTag_tokens i ts m) k
       = ptrs_of m k @ replicate (count_list (map normalizeTagDisplayOne ts) k) i"
  by (induction ts arbitrary: m)
     (simp_all add: Let_def byTag_push_sorted byTag_push_ptrs replicate_append_same)

lemma row_tokens_nonempty: "\<forall>t \<in> set (splitTags (tags r)). normalizeTagDisplayOne t \<noteq> []"
  using token_heading_nonempty by blast

lemma byTag_rows_sorted:
  "sorted_wrt (<) (map fst m) \<Longrightarrow> sorted_wrt (<) (map fst (byTag_rows i rs m))"
  by (induction rs arbitrary: i m) (simp_all add: byTag_tokens_sorted)

lemma byTag_rows_keys:
  "fst ` set (byTag_rows i rs m) = fst ` set m \<union> (\<Union>r \<in> set rs. set (tag_headings r))"
proof (induction rs arbitrary: i m)
  case Nil
  then show ?case by simp
next
  case (Cons r rs)
  have "fst ` set (byTag_tokens i (splitTags (tags r)) m) = fst ` set m \<union> set (tag_headings r)"
    using byTag_tokens_keys[OF row_tokens_nonempty] by (simp add: tag_headings_def)
  then show ?case using Cons[of "Suc i" "byTag_tokens i (splitTags (tags r)) m"] by auto
qed

lemma byTag_rows_ptrs:
  "sorted_wrt (<) (map fst m)
   \<Longrightarrow> ptrs_of (byTag_rows i rs m) k
       = ptrs_of m k
         @ concat (map (\<lambda>j. replicate (count_list (tag_headings (rs ! j)) k) (i + j)) [0..<length rs])"
proof (induction rs arbitrary: i m)
  case Nil
  then show ?case by simp
next
  case (Cons r rs)
  define m' where "m' = byTag_tokens i (splitTags (tags r)) m"
  have s: "sorted_wrt (<) (map fst m')" unfolding m'_def using Cons.prems by (rule byTag_tokens_sorted)
  have p: "ptrs_of m' k = ptrs_of m k @ replicate (count_list (tag_headings r) k) i"
    unfolding m'_def tag_headings_def using Cons.prems row_tokens_nonempty by (rule byTag_tokens_ptrs)
  have u: "[0..<length (r # rs)] = 0 # map Suc [0..<length rs]"
    by (simp add: upt_conv_Cons map_Suc_upt del: upt_Suc)
  have "concat (map (\<lambda>j. replicate (count_list (tag_headings ((r # rs) ! j)) k) (i + j)) [0..<length (r # rs)])
        = replicate (count_list (tag_headings r) k) i
          @ concat (map (\<lambda>j. replicate (count_list (tag_headings (rs ! j)) k) (Suc i + j)) [0..<length rs])"
    unfolding u by (simp add: comp_def)
  then show ?case using Cons.IH[OF s, of "Suc i"] p by (simp add: m'_def del: upt_Suc)
qed

lemma byTag_props:
  shows "sorted_wrt (<) (map fst (byTag rows))"
    "set (map fst (byTag rows)) = (\<Union>r \<in> set rows. set (tag_headings r))"
    "ptrs_of (byTag rows) k
       = concat (map (\<lambda>j. replicate (count_list (tag_headings (rows ! j)) k) j) [0..<length rows])"
  using byTag_rows_sorted[of "[]" 0 rows] byTag_rows_keys[of 0 rows "[]"]
    byTag_rows_ptrs[of "[]" 0 rows k]
  by (simp_all add: byTag_def ptrs_of_def)

lemma byTag_entry:
  assumes "(h, ptrs) \<in> set (byTag rows)"
  shows "ptrs = concat (map (\<lambda>j. replicate (count_list (tag_headings (rows ! j)) h) j) [0..<length rows])"
proof -
  have "distinct (map fst (byTag rows))"
    using byTag_props(1)[of rows] strict_sorted_iff by blast
  then have "map_of (byTag rows) h = Some ptrs" using assms by simp
  then have "ptrs_of (byTag rows) h = ptrs" by (simp add: ptrs_of_def)
  then show ?thesis using byTag_props(3)[of rows h] by simp
qed

lemma byTag_empty_iff: "byTag rows = [] \<longleftrightarrow> (\<forall>r \<in> set rows. splitTags (tags r) = [])"
proof
  assume "byTag rows = []"
  then have "(\<Union>r \<in> set rows. set (tag_headings r)) = {}"
    using byTag_props(2)[of rows] by simp
  then show "\<forall>r \<in> set rows. splitTags (tags r) = []" by (simp add: tag_headings_def)
next
  assume "\<forall>r \<in> set rows. splitTags (tags r) = []"
  then have "(\<Union>r \<in> set rows. set (tag_headings r)) = {}" by (simp add: tag_headings_def)
  then have "set (map fst (byTag rows)) = {}" using byTag_props(2)[of rows] by simp
  then show "byTag rows = []" by simp
qed

lemma spec_heading_list_props:
  "sorted (spec_heading_list rows)" "distinct (spec_heading_list rows)"
  "set (spec_heading_list rows) = (\<Union>r \<in> set rows. set (tag_headings r))"
  by (simp_all add: spec_heading_list_def)

lemma byTag_keys_spec: "map fst (byTag rows) = spec_heading_list rows"
proof -
  have "sorted (map fst (byTag rows)) \<and> distinct (map fst (byTag rows))"
    using byTag_props(1)[of rows] strict_sorted_iff by blast
  moreover have "set (map fst (byTag rows)) = set (spec_heading_list rows)"
    using byTag_props(2)[of rows] spec_heading_list_props(3)[of rows] by simp
  ultimately show ?thesis
    using spec_heading_list_props(1,2)[of rows] by (intro sorted_distinct_set_unique) simp_all
qed

lemma concat_map_concat_replicate:
  "concat (map F (concat (map (\<lambda>j. replicate (c j) j) xs)))
     = concat (map (\<lambda>j. concat (replicate (c j) (F j))) xs)"
  by (induction xs) (simp_all add: map_replicate_const)

lemma concat_map_nth:
  "concat (map (\<lambda>j. G (rows ! j)) [0..<length rows]) = concat (map G rows)"
proof -
  have "map (\<lambda>j. G (rows ! j)) [0..<length rows] = map G (map (\<lambda>j. rows ! j) [0..<length rows])"
    by simp
  then show ?thesis by (simp only: map_nth)
qed

lemma render_group_spec:
  assumes "(h, ptrs) \<in> set (byTag rows)"
  shows "render_group rows (h, ptrs) = ''### '' @ h @ [NL] @ spec_lines_under rows h @ [NL]"
proof -
  define F where "F = (\<lambda>i. recLineMarkdown (rows ! i) @ [NL])"
  define c where "c = (\<lambda>j. count_list (tag_headings (rows ! j)) h)"
  have p: "ptrs = concat (map (\<lambda>j. replicate (c j) j) [0..<length rows])"
    unfolding c_def using assms by (rule byTag_entry)
  have "concat (map F ptrs) = concat (map (\<lambda>j. concat (replicate (c j) (F j))) [0..<length rows])"
    unfolding p by (rule concat_map_concat_replicate)
  also have "\<dots> = concat (map (\<lambda>r. concat (replicate (count_list (tag_headings r) h)
                                             (recLineMarkdown r @ [NL]))) rows)"
    unfolding c_def F_def
    by (rule concat_map_nth[of "\<lambda>r. concat (replicate (count_list (tag_headings r) h)
                                             (recLineMarkdown r @ [NL]))" rows])
  finally have "concat (map F ptrs) = spec_lines_under rows h" by (simp add: spec_lines_under_def)
  then show ?thesis unfolding render_group_def F_def by simp
qed

lemma render_groups_spec:
  "concat (map (render_group rows) (byTag rows))
     = concat (map (\<lambda>h. ''### '' @ h @ [NL] @ spec_lines_under rows h @ [NL])
                   (spec_heading_list rows))"
proof -
  have "map (render_group rows) (byTag rows)
      = map ((\<lambda>h. ''### '' @ h @ [NL] @ spec_lines_under rows h @ [NL]) \<circ> fst) (byTag rows)"
  proof (rule map_cong[OF refl])
    fix e assume "e \<in> set (byTag rows)"
    then have "(fst e, snd e) \<in> set (byTag rows)" by simp
    then have "render_group rows (fst e, snd e)
        = ''### '' @ fst e @ [NL] @ spec_lines_under rows (fst e) @ [NL]"
      by (rule render_group_spec)
    then show "render_group rows e
        = ((\<lambda>h. ''### '' @ h @ [NL] @ spec_lines_under rows h @ [NL]) \<circ> fst) e"
      by simp
  qed
  also have "\<dots> = map (\<lambda>h. ''### '' @ h @ [NL] @ spec_lines_under rows h @ [NL])
                       (map fst (byTag rows))"
    by simp
  finally show ?thesis by (simp only: byTag_keys_spec)
qed

lemma renderGrouped_spec: "renderGroupedByTagsMarkdown rows = spec_grouped_text rows"
proof -
  have e: "(byTag rows = []) = list_all (\<lambda>r. splitTags (tags r) = []) rows"
    by (simp add: byTag_empty_iff list_all_iff)
  show ?thesis
    unfolding renderGroupedByTagsMarkdown_def spec_grouped_text_def Let_def
      render_groups_spec e by (rule refl)
qed

lemma hash_kept:
  assumes "t \<in> set (splitTags s)" "hd t = CHR ''#''"
  shows "hd (normalizeTagDisplayOne t) = CHR ''#''"
proof -
  have t: "t \<noteq> []" "\<forall>c \<in> set t. \<not> isspace c" using splitTags_tokens[OF assms(1)] by simp_all
  then have "\<not> isspace (hd t)" "\<not> isspace (last t)" by simp_all
  then have "trim t = t" using t(1) by (intro trim_id)
  then show ?thesis using t(1) assms(2)
    by (simp add: normalizeTagDisplayOne_def Let_def split: list.splits)
qed

text \<open>
  C4 (amended).  The grouped rendering is the text \<open>spec_grouped_text\<close>: the title; then,
  for each display form of a tag carried by some row, taken once and in ascending
  lexicographic order, a heading with that display form, followed by the lines of the rows
  in input order, a row's line once for each of its tags that has this display form, and an
  empty line; then the placeholder line when no row carries a tag.  The display form of a
  tag written with a leading \<open>#\<close> keeps the \<open>#\<close>.
\<close>

theorem C4_grouped_by_tag:
  "renderGroupedByTagsMarkdown rows = spec_grouped_text rows
   \<and> sorted (spec_heading_list rows) \<and> distinct (spec_heading_list rows)
   \<and> set (spec_heading_list rows) = (\<Union>r \<in> set rows. set (tag_headings r))
   \<and> (\<forall>r \<in> set rows. \<forall>t \<in> set (splitTags (tags r)).
          hd t = CHR ''#'' \<longrightarrow> hd (normalizeTagDisplayOne t) = CHR ''#'')
   \<and> ((\<forall>r \<in> set rows. splitTags (tags r) = [])
        \<longrightarrow> renderGroupedByTagsMarkdown rows = ''## By Tag'' @ [NL, NL] @ ''(No tags in range)'' @ [NL])"
proof -
  note a = renderGrouped_spec[of rows]
  note b = spec_heading_list_props(1)[of rows] and c = spec_heading_list_props(2)[of rows]
    and d = spec_heading_list_props(3)[of rows]
  have e: "\<forall>r \<in> set rows. \<forall>t \<in> set (splitTags (tags r)).
          hd t = CHR ''#'' \<longrightarrow> hd (normalizeTagDisplayOne t) = CHR ''#''"
    using hash_kept by blast
  have g: "(\<forall>r \<in> set rows. splitTags (tags r) = [])
        \<longrightarrow> renderGroupedByTagsMarkdown rows = ''## By Tag'' @ [NL, NL] @ ''(No tags in range)'' @ [NL]"
  proof
    assume "\<forall>r \<in> set rows. splitTags (tags r) = []"
    then have e: "byTag rows = []" by (rule iffD2[OF byTag_empty_iff])
    show "renderGroupedByTagsMarkdown rows = ''## By Tag'' @ [NL, NL] @ ''(No tags in range)'' @ [NL]"
      unfolding renderGroupedByTagsMarkdown_def Let_def e by simp
  qed
  show ?thesis by (rule conjI[OF a conjI[OF b conjI[OF c conjI[OF d conjI[OF e g]]]]])
qed

theorem C4_grouped_by_tag_witness:
  "renderGroupedByTagsMarkdown [rec_ab, rec_aAb]
     = ''## By Tag'' @ [NL, NL]
       @ ''### #A'' @ [NL]
       @ ''- [github.com](https://github.com/foo/bar) '' @ emdash @ '' *code* '' @ emdash
           @ '' Foo '' @ emdash @ '' #A #B'' @ [NL]
       @ ''- [example.com](example.com/x.pdf) '' @ emdash @ '' *pdf* '' @ emdash
           @ '' #A #A #B'' @ [NL]
       @ ''- [example.com](example.com/x.pdf) '' @ emdash @ '' *pdf* '' @ emdash
           @ '' #A #A #B'' @ [NL, NL]
       @ ''### #B'' @ [NL]
       @ ''- [github.com](https://github.com/foo/bar) '' @ emdash @ '' *code* '' @ emdash
           @ '' Foo '' @ emdash @ '' #A #B'' @ [NL]
       @ ''- [example.com](example.com/x.pdf) '' @ emdash @ '' *pdf* '' @ emdash
           @ '' #A #A #B'' @ [NL, NL]
   \<and> hd (normalizeTagDisplayOne ''#a'') = CHR ''#''"
proof -
  note t = C4_grouped_by_tag[of "[rec_ab, rec_aAb]"]
  have s: "spec_grouped_text [rec_ab, rec_aAb]
     = ''## By Tag'' @ [NL, NL]
       @ ''### #A'' @ [NL]
       @ ''- [github.com](https://github.com/foo/bar) '' @ emdash @ '' *code* '' @ emdash
           @ '' Foo '' @ emdash @ '' #A #B'' @ [NL]
       @ ''- [example.com](example.com/x.pdf) '' @ emdash @ '' *pdf* '' @ emdash
           @ '' #A #A #B'' @ [NL]
       @ ''- [example.com](example.com/x.pdf) '' @ emdash @ '' *pdf* '' @ emdash
           @ '' #A #A #B'' @ [NL, NL]
       @ ''### #B'' @ [NL]
       @ ''- [github.com](https://github.com/foo/bar) '' @ emdash @ '' *code* '' @ emdash
           @ '' Foo '' @ emdash @ '' #A #B'' @ [NL]
       @ ''- [example.com](example.com/x.pdf) '' @ emdash @ '' *pdf* '' @ emdash
           @ '' #A #A #B'' @ [NL, NL]"
    by code_simp
  have m: "rec_ab \<in> set [rec_ab, rec_aAb]" by simp
  have k: "''#a'' \<in> set (splitTags (tags rec_ab))" by code_simp
  have h: "hd ''#a'' = CHR ''#''" by simp
  note q = t[THEN conjunct2, THEN conjunct2, THEN conjunct2, THEN conjunct2, THEN conjunct1]
  have v: "hd (normalizeTagDisplayOne ''#a'') = CHR ''#''"
    using bspec[OF bspec[OF q m] k] h by (rule mp)
  show ?thesis by (rule conjI[OF trans[OF t[THEN conjunct1] s] v])
qed

text \<open>
  C4 as stated fails on the heading text and on the number of headings.  A record with
  the tags \<open>#a #b\<close> is listed under the headings \<open>#A\<close> and \<open>#B\<close>; there is no heading \<open>A\<close>
  or \<open>B\<close>.  A record with the three tags \<open>#a #A #b\<close> is listed under two headings, twice
  under \<open>#A\<close>.
\<close>

theorem C4_counterexample:
  "renderGroupedByTagsMarkdown [rec_ab]
     = ''## By Tag'' @ [NL, NL]
       @ ''### #A'' @ [NL]
       @ ''- [github.com](https://github.com/foo/bar) '' @ emdash @ '' *code* '' @ emdash
           @ '' Foo '' @ emdash @ '' #A #B'' @ [NL, NL]
       @ ''### #B'' @ [NL]
       @ ''- [github.com](https://github.com/foo/bar) '' @ emdash @ '' *code* '' @ emdash
           @ '' Foo '' @ emdash @ '' #A #B'' @ [NL, NL]
   \<and> map fst (byTag [rec_ab]) = [''#A'', ''#B'']
   \<and> splitTags (tags rec_aAb) = [''#a'', ''#A'', ''#b'']
   \<and> byTag [rec_aAb] = [(''#A'', [0, 0]), (''#B'', [0])]
   \<and> renderGroupedByTagsMarkdown [rec_aAb]
     = ''## By Tag'' @ [NL, NL]
       @ ''### #A'' @ [NL]
       @ ''- [example.com](example.com/x.pdf) '' @ emdash @ '' *pdf* '' @ emdash
           @ '' #A #A #B'' @ [NL]
       @ ''- [example.com](example.com/x.pdf) '' @ emdash @ '' *pdf* '' @ emdash
           @ '' #A #A #B'' @ [NL, NL]
       @ ''### #B'' @ [NL]
       @ ''- [example.com](example.com/x.pdf) '' @ emdash @ '' *pdf* '' @ emdash
           @ '' #A #A #B'' @ [NL, NL]"
  by code_simp

end
